theory Spec2Isabelle
  imports Main
begin

section \<open>The event bus of eventbus.h\<close>

text \<open>
  A shallow embedding of the single-threaded event bus of \<^verbatim>\<open>src/eventbus.h\<close>:
  the registry \<^verbatim>\<open>m_listeners\<close>, the queue \<^verbatim>\<open>m_postpondedEvents\<close>, the two dispatch
  paths \<^verbatim>\<open>immediate\<close> and \<^verbatim>\<open>process\<close>, and the \<^verbatim>\<open>Listener\<close> handle.

  A user callback is opaque C++ code. Here it is a function of the event it receives and
  of the state of the world outside the bus (type \<open>'w\<close>: whatever the closure captured),
  returning the new outside state and the events it hands to \<^verbatim>\<open>post\<close> of this bus while
  it runs. Callbacks that change the registry or dispatch recursively from inside a
  dispatch are not covered. Every call of a wrapped function is also written to a log of
  invocations, so that statements can speak about which callbacks ran and in which order.
\<close>

subsection \<open>Data\<close>

text \<open>\<^verbatim>\<open>event_id_t\<close> is \<^verbatim>\<open>std::type_index\<close>: one key per event type.\<close>

type_synonym event_id_t = nat

text \<open>
  \<^verbatim>\<open>std::any\<close> holding an event: the type of the held value and the value. The \<open>any_type\<close>
  is what \<^verbatim>\<open>std::any_cast\<close> compares with its template argument.
\<close>

datatype 'v any = Any (any_type: event_id_t) (any_value: 'v)

text \<open>
  What ends a call without a result: the exception of a failed \<^verbatim>\<open>std::any_cast\<close>, the
  dereference of a null pointer, and the use of an iterator into storage that a vector
  has given up. The last two are undefined behaviour in C++.
\<close>

datatype error = bad_any_cast | null_dereference | invalidated_iterator

text \<open>
  \<^verbatim>\<open>std::function<void(const Event&)>\<close>; the empty function is \<open>None\<close> in the field \<open>cb\<close>
  of the wrapper \<^verbatim>\<open>Callback<Event>\<close>, whose template argument is \<open>event_type\<close>.
\<close>

type_synonym ('v, 'w) callback_t = "'v \<Rightarrow> 'w \<Rightarrow> 'w \<times> 'v any list"

record ('v, 'w) Callback =
  event_type :: event_id_t
  cb :: "('v, 'w) callback_t option"

record ('v, 'w) ListenerCallbacks =
  listener_id :: int
  calls :: "('v, 'w) Callback list"

type_synonym ('v, 'w) EventListeners = "('v, 'w) ListenerCallbacks list"

type_synonym ('v, 'w) ListenersMap = "event_id_t \<rightharpoonup> ('v, 'w) EventListeners"

record 'v Postponded =
  id_pe :: event_id_t
  event :: "'v any"

text \<open>
  The bus. Of the vector \<^verbatim>\<open>m_postpondedEvents\<close> the elements and the capacity are kept:
  the capacity decides whether an append moves the elements to new storage.
\<close>

record ('v, 'w) EventBus =
  m_lastListenerId :: int
  m_listeners :: "('v, 'w) ListenersMap"
  m_postpondedEvents :: "'v Postponded list"
  m_postpondedEvents_capacity :: nat

text \<open>A freshly constructed bus: the default member initialisers.\<close>

definition EventBus_init :: "('v, 'w) EventBus" where
  "EventBus_init =
     \<lparr>m_lastListenerId = 0, m_listeners = Map.empty, m_postpondedEvents = [],
      m_postpondedEvents_capacity = 0\<rparr>"

text \<open>
  The state a dispatch runs in: the bus, the world outside it, and the log of the
  invocations of wrapped functions made so far (the callback entry and the event).
\<close>

type_synonym ('v, 'w) invocation = "('v, 'w) Callback \<times> 'v any"

type_synonym ('v, 'w) state = "('v, 'w) EventBus \<times> 'w \<times> ('v, 'w) invocation list"

subsection \<open>Vector helpers\<close>

text \<open>\<^verbatim>\<open>internal::erase_if\<close>: the loop erases the elements that satisfy \<open>pred\<close>.\<close>

fun erase_if :: "'a list \<Rightarrow> ('a \<Rightarrow> bool) \<Rightarrow> 'a list" where
  "erase_if [] pred = []"
| "erase_if (x # xs) pred = (if pred x then erase_if xs pred else x # erase_if xs pred)"

text \<open>
  \<^verbatim>\<open>std::find_if\<close>: the position of the first element that satisfies \<open>pred\<close>, \<open>None\<close> for
  the end iterator.
\<close>

fun find_if :: "'a list \<Rightarrow> ('a \<Rightarrow> bool) \<Rightarrow> nat option" where
  "find_if [] pred = None"
| "find_if (x # xs) pred = (if pred x then Some 0 else map_option Suc (find_if xs pred))"

subsection \<open>Callback wrapper\<close>

text \<open>
  The capacity a full vector of \<open>n\<close> elements takes when one more is appended. The
  standard leaves the growth to the library; this is the doubling of libstdc++
  (\<open>n + max(n, 1)\<close>).
\<close>

definition vector_grow :: "nat \<Rightarrow> nat" where
  "vector_grow n = n + max n 1"

text \<open>
  \<^verbatim>\<open>EventBus::post\<close>: \<^verbatim>\<open>emplace_back\<close> of \<open>Postponded{event_id<Event>(), e}\<close>. The element
  goes behind the others in place when the capacity allows; otherwise the vector
  reallocates: the capacity grows and the elements move to new storage.
\<close>

definition post :: "'v any \<Rightarrow> ('v, 'w) EventBus \<Rightarrow> ('v, 'w) EventBus" where
  "post e b =
     b\<lparr>m_postpondedEvents := m_postpondedEvents b @ [\<lparr>id_pe = any_type e, event = e\<rparr>],
       m_postpondedEvents_capacity :=
         (if length (m_postpondedEvents b) < m_postpondedEvents_capacity b
          then m_postpondedEvents_capacity b
          else vector_grow (length (m_postpondedEvents b)))\<rparr>"

text \<open>
  \<^verbatim>\<open>Callback<Event>::execute\<close>: \<^verbatim>\<open>if (cb) cb(std::any_cast<Event>(e))\<close>. An empty
  function is skipped before the cast is evaluated; otherwise the cast throws
  \<^verbatim>\<open>std::bad_any_cast\<close> when the value held is not an \<open>Event\<close>, and else the function runs:
  it changes the outside world and posts its events; the invocation is logged.
\<close>

definition execute :: "('v, 'w) Callback \<Rightarrow> 'v any \<Rightarrow> ('v, 'w) state \<Rightarrow> error + ('v, 'w) state" where
  "execute c e s =
     (case s of (b, w, tr) \<Rightarrow>
        (case cb c of
           None \<Rightarrow> Inr (b, w, tr)
         | Some f \<Rightarrow>
             if any_type e \<noteq> event_type c then Inl bad_any_cast
             else (case f (any_value e) w of
                     (w', posted) \<Rightarrow> Inr (foldl (\<lambda>b' p. post p b') b posted, w', tr @ [(c, e)]))))"

subsection \<open>EventBus\<close>

text \<open>The inner loop of \<^verbatim>\<open>immediate\<close>: \<^verbatim>\<open>for (const auto& c : el.calls) c->execute(e)\<close>.\<close>

fun execute_calls ::
  "('v, 'w) Callback list \<Rightarrow> 'v any \<Rightarrow> ('v, 'w) state \<Rightarrow> error + ('v, 'w) state" where
  "execute_calls [] e s = Inr s"
| "execute_calls (c # cs) e s =
     (case execute c e s of Inl err \<Rightarrow> Inl err | Inr s' \<Rightarrow> execute_calls cs e s')"

text \<open>The outer loop of \<^verbatim>\<open>immediate\<close>: \<^verbatim>\<open>for (const auto& el : it->second)\<close>.\<close>

fun visit_listeners ::
  "('v, 'w) EventListeners \<Rightarrow> 'v any \<Rightarrow> ('v, 'w) state \<Rightarrow> error + ('v, 'w) state" where
  "visit_listeners [] e s = Inr s"
| "visit_listeners (el # els) e s =
     (case execute_calls (calls el) e s of
        Inl err \<Rightarrow> Inl err
      | Inr s' \<Rightarrow> visit_listeners els e s')"

text \<open>The private \<^verbatim>\<open>immediate(event_id_t id, std::any e)\<close>.\<close>

definition immediate_id ::
  "event_id_t \<Rightarrow> 'v any \<Rightarrow> ('v, 'w) state \<Rightarrow> error + ('v, 'w) state" where
  "immediate_id eid e s =
     (case m_listeners (fst s) eid of
        None \<Rightarrow> Inr s
      | Some els \<Rightarrow> visit_listeners els e s)"

text \<open>The public \<^verbatim>\<open>immediate(Event e)\<close>: the key is that of the static type of \<open>e\<close>.\<close>

definition immediate :: "'v any \<Rightarrow> ('v, 'w) state \<Rightarrow> error + ('v, 'w) state" where
  "immediate e s = immediate_id (any_type e) e s"

text \<open>
  \<^verbatim>\<open>process\<close>. The range-based \<^verbatim>\<open>for\<close> takes \<^verbatim>\<open>begin()\<close> and \<^verbatim>\<open>end()\<close> of the queue once,
  before the first iteration, and walks from the one to the other: \<open>process_loop k i\<close>
  has \<open>k\<close> iterations left and stands at position \<open>i\<close>. The entry and its key are copied
  into the arguments of \<^verbatim>\<open>immediate\<close> before any callback runs. A \<^verbatim>\<open>post\<close> made by a
  callback during the dispatch appends to the very vector the loop walks:
  \<^item> in place, the entries of the range stay where they are and the new one lies behind
    the old end, so the loop goes on and does not reach it;
  \<^item> with a reallocation, the storage the two iterators point into is freed. With
    iterations left the loop would read the next entry from freed storage, which is
    undefined behaviour: the model ends with \<open>invalidated_iterator\<close> (a run reads a
    moved-from, empty \<^verbatim>\<open>std::any\<close> there and throws \<^verbatim>\<open>std::bad_any_cast\<close> from the first
    callback reached, without clearing the queue). After the last iteration the two
    stale iterators are only compared, they are equal, and the loop ends.
  A reallocation is what changes the capacity. After the loop, \<^verbatim>\<open>clear()\<close> empties the
  whole queue and keeps the capacity.
\<close>

primrec process_loop :: "nat \<Rightarrow> nat \<Rightarrow> ('v, 'w) state \<Rightarrow> error + ('v, 'w) state" where
  "process_loop 0 i s = Inr s"
| "process_loop (Suc k) i s =
     (let pe = m_postpondedEvents (fst s) ! i in
      case immediate_id (id_pe pe) (event pe) s of
        Inl err \<Rightarrow> Inl err
      | Inr s' \<Rightarrow>
          if 0 < k \<and>
             m_postpondedEvents_capacity (fst s') \<noteq> m_postpondedEvents_capacity (fst s)
          then Inl invalidated_iterator
          else process_loop k (Suc i) s')"

definition process :: "('v, 'w) state \<Rightarrow> error + ('v, 'w) state" where
  "process s =
     (case process_loop (length (m_postpondedEvents (fst s))) 0 s of
        Inl err \<Rightarrow> Inl err
      | Inr (b, w, tr) \<Rightarrow> Inr (b\<lparr>m_postpondedEvents := []\<rparr>, w, tr))"

text \<open>
  A C++ \<^verbatim>\<open>int\<close> has 32 bits. Signed overflow is undefined in the language; on the
  two's complement machines the code runs on, the increment of \<^verbatim>\<open>INT_MAX\<close> gives
  \<^verbatim>\<open>INT_MIN\<close>, and so does the model.
\<close>

definition int_wrap :: "int \<Rightarrow> int" where
  "int_wrap x = (x + 2147483648) mod 4294967296 - 2147483648"

text \<open>\<^verbatim>\<open>getNewListenerId\<close>: \<^verbatim>\<open>return ++m_lastListenerId\<close>.\<close>

definition getNewListenerId :: "('v, 'w) EventBus \<Rightarrow> int \<times> ('v, 'w) EventBus" where
  "getNewListenerId b =
     (int_wrap (m_lastListenerId b + 1), b\<lparr>m_lastListenerId := int_wrap (m_lastListenerId b + 1)\<rparr>)"

text \<open>\<^verbatim>\<open>removeListener(event_id_t id, int listener_id)\<close>.\<close>

definition removeListener ::
  "event_id_t \<Rightarrow> int \<Rightarrow> ('v, 'w) EventBus \<Rightarrow> ('v, 'w) EventBus" where
  "removeListener eid lid b =
     (case m_listeners b eid of
        None \<Rightarrow> b
      | Some els \<Rightarrow>
          (let els' = erase_if els (\<lambda>elem. listener_id elem = lid) in
           if els' = [] then b\<lparr>m_listeners := (m_listeners b)(eid := None)\<rparr>
           else b\<lparr>m_listeners := (m_listeners b)(eid \<mapsto> els')\<rparr>))"

text \<open>
  \<^verbatim>\<open>removeListener(int listener_id)\<close>: the loop visits every entry of the map once,
  erases the groups of the listener from it and erases the entry when nothing is left.
\<close>

definition removeListener_all :: "int \<Rightarrow> ('v, 'w) EventBus \<Rightarrow> ('v, 'w) EventBus" where
  "removeListener_all lid b =
     b\<lparr>m_listeners := (\<lambda>eid.
         case m_listeners b eid of
           None \<Rightarrow> None
         | Some els \<Rightarrow>
             (let els' = erase_if els (\<lambda>elem. listener_id elem = lid) in
              if els' = [] then None else Some els'))\<rparr>"

text \<open>
  \<^verbatim>\<open>addListener\<close>, on the vector \<^verbatim>\<open>eventListeners\<close>: \<^verbatim>\<open>find_if\<close> for the listener's group,
  a new group with the callback pushed at the back when there is none, the callback
  appended to the calls of the group found otherwise.
\<close>

definition add_call ::
  "('v, 'w) EventListeners \<Rightarrow> int \<Rightarrow> ('v, 'w) Callback \<Rightarrow> ('v, 'w) EventListeners" where
  "add_call eventListeners lid callback =
     (case find_if eventListeners (\<lambda>elem. listener_id elem = lid) of
        None \<Rightarrow> eventListeners @ [\<lparr>listener_id = lid, calls = [callback]\<rparr>]
      | Some i \<Rightarrow>
          eventListeners[i := (eventListeners ! i)\<lparr>calls := calls (eventListeners ! i) @ [callback]\<rparr>])"

text \<open>\<^verbatim>\<open>m_listeners[id]\<close> inserts an empty vector under a key that is absent.\<close>

definition addListener ::
  "event_id_t \<Rightarrow> int \<Rightarrow> ('v, 'w) Callback \<Rightarrow> ('v, 'w) EventBus \<Rightarrow> ('v, 'w) EventBus" where
  "addListener eid lid callback b =
     (let eventListeners = (case m_listeners b eid of None \<Rightarrow> [] | Some els \<Rightarrow> els)
      in b\<lparr>m_listeners := (m_listeners b)(eid \<mapsto> add_call eventListeners lid callback)\<rparr>)"

subsection \<open>Listener\<close>

text \<open>
  A \<^verbatim>\<open>std::shared_ptr<EventBus>\<close> is an address or null. The handle shares ownership of
  the bus, so the bus at the address of a handle is alive: the heap gives a bus at every
  address.
\<close>

type_synonym bus_ptr = nat

type_synonym ('v, 'w) heap = "bus_ptr \<Rightarrow> ('v, 'w) EventBus"

record Listener =
  m_listenerId :: int
  m_bus :: "bus_ptr option"

text \<open>
  The constructor evaluates \<^verbatim>\<open>bus->getNewListenerId()\<close> whatever \<^verbatim>\<open>bus\<close> is: a null
  pointer is dereferenced.
\<close>

definition Listener_ctor ::
  "bus_ptr option \<Rightarrow> ('v, 'w) heap \<Rightarrow> error + Listener \<times> ('v, 'w) heap" where
  "Listener_ctor bus h =
     (case bus of
        None \<Rightarrow> Inl null_dereference
      | Some p \<Rightarrow>
          (case getNewListenerId (h p) of
             (n, b') \<Rightarrow> Inr (\<lparr>m_listenerId = n, m_bus = Some p\<rparr>, h(p := b'))))"

definition listen ::
  "Listener \<Rightarrow> event_id_t \<Rightarrow> ('v, 'w) callback_t option \<Rightarrow> ('v, 'w) heap \<Rightarrow> ('v, 'w) heap" where
  "listen l eid callback h =
     (case m_bus l of
        None \<Rightarrow> h
      | Some p \<Rightarrow>
          h(p := addListener eid (m_listenerId l) \<lparr>event_type = eid, cb = callback\<rparr> (h p)))"

definition unlisten :: "Listener \<Rightarrow> event_id_t \<Rightarrow> ('v, 'w) heap \<Rightarrow> ('v, 'w) heap" where
  "unlisten l eid h =
     (case m_bus l of
        None \<Rightarrow> h
      | Some p \<Rightarrow> h(p := removeListener eid (m_listenerId l) (h p)))"

definition unlistenAll :: "Listener \<Rightarrow> ('v, 'w) heap \<Rightarrow> ('v, 'w) heap" where
  "unlistenAll l h =
     (case m_bus l of
        None \<Rightarrow> h
      | Some p \<Rightarrow> h(p := removeListener_all (m_listenerId l) (h p)))"

text \<open>The destructor: \<^verbatim>\<open>~Listener() { unlistenAll(); }\<close>.\<close>

definition Listener_dtor :: "Listener \<Rightarrow> ('v, 'w) heap \<Rightarrow> ('v, 'w) heap" where
  "Listener_dtor l h = unlistenAll l h"

subsection \<open>Notions used to state the properties\<close>

text \<open>The groups registered under a key, in the order of the vector; none without an entry.\<close>

definition groups :: "('v, 'w) ListenersMap \<Rightarrow> event_id_t \<Rightarrow> ('v, 'w) EventListeners" where
  "groups r eid = (case r eid of None \<Rightarrow> [] | Some els \<Rightarrow> els)"

text \<open>
  Well-formed registry: every key present holds a non-empty vector of groups, and no
  listener id owns two groups under one key.
\<close>

definition wf_registry :: "('v, 'w) ListenersMap \<Rightarrow> bool" where
  "wf_registry r =
     (\<forall>eid els. r eid = Some els \<longrightarrow> els \<noteq> [] \<and> distinct (map listener_id els))"

text \<open>
  Typing of the registry and of the queue, as the templates \<^verbatim>\<open>listen<Event>\<close> and
  \<^verbatim>\<open>post<Event>\<close> establish it: a callback stored under a key wraps a function of that
  event type, and a queued entry carries the key of the value it holds.
\<close>

definition typed_registry :: "('v, 'w) ListenersMap \<Rightarrow> bool" where
  "typed_registry r =
     (\<forall>eid els. r eid = Some els \<longrightarrow> (\<forall>el \<in> set els. \<forall>c \<in> set (calls el). event_type c = eid))"

definition typed_queue :: "'v Postponded list \<Rightarrow> bool" where
  "typed_queue q = (\<forall>pe \<in> set q. id_pe pe = any_type (event pe))"

text \<open>
  The invocations a dispatch of \<open>e\<close> over the groups \<open>els\<close> is to make: group after group,
  inside a group call after call, every entry whose wrapped function is not empty once.
\<close>

definition invocations :: "('v, 'w) EventListeners \<Rightarrow> 'v any \<Rightarrow> ('v, 'w) invocation list" where
  "invocations els e =
     concat (map (\<lambda>el. map (\<lambda>c. (c, e)) (filter (\<lambda>c. cb c \<noteq> None) (calls el))) els)"

text \<open>
  What one invocation of a callback entry with an event makes of a state: the wrapped
  function is applied to the value of the event and to the world, the events it posts
  are appended to the queue, the invocation is logged. \<open>invoke_all\<close> is one invocation
  after the other, each in the state the one before left.
\<close>

definition invoke :: "('v, 'w) Callback \<Rightarrow> 'v any \<Rightarrow> ('v, 'w) state \<Rightarrow> ('v, 'w) state" where
  "invoke c e s =
     (case s of (b, w, tr) \<Rightarrow>
        (case cb c of
           None \<Rightarrow> (b, w, tr)
         | Some f \<Rightarrow>
             (case f (any_value e) w of
                (w', posted) \<Rightarrow> (foldl (\<lambda>b' p. post p b') b posted, w', tr @ [(c, e)]))))"

definition invoke_all ::
  "('v, 'w) Callback list \<Rightarrow> 'v any \<Rightarrow> ('v, 'w) state \<Rightarrow> ('v, 'w) state" where
  "invoke_all cs e s = foldl (\<lambda>s' c. invoke c e s') s cs"

text \<open>
  The calls a \<^verbatim>\<open>Listener\<close> with listener id \<open>lid\<close> makes on its bus: \<^verbatim>\<open>listen<Event>\<close>,
  \<^verbatim>\<open>unlisten<Event>\<close> and \<^verbatim>\<open>unlistenAll\<close> (also its destructor).
\<close>

datatype ('v, 'w) reg_call =
  Listen int event_id_t "('v, 'w) callback_t option"
| Unlisten int event_id_t
| UnlistenAll int

fun reg_step :: "('v, 'w) reg_call \<Rightarrow> ('v, 'w) EventBus \<Rightarrow> ('v, 'w) EventBus" where
  "reg_step (Listen lid eid callback) b =
     addListener eid lid \<lparr>event_type = eid, cb = callback\<rparr> b"
| "reg_step (Unlisten lid eid) b = removeListener eid lid b"
| "reg_step (UnlistenAll lid) b = removeListener_all lid b"

definition reg_run :: "('v, 'w) reg_call list \<Rightarrow> ('v, 'w) EventBus \<Rightarrow> ('v, 'w) EventBus" where
  "reg_run cs b = foldl (\<lambda>b' c. reg_step c b') b cs"

text \<open>
  The registrations in force after a history of such calls, oldest first: the key, the
  listener id and the callback entry of every \<^verbatim>\<open>listen\<close> that no later \<^verbatim>\<open>unlisten\<close> of that
  listener has revoked.
\<close>

type_synonym ('v, 'w) registration = "event_id_t \<times> int \<times> ('v, 'w) Callback"

fun live_step ::
  "('v, 'w) registration list \<Rightarrow> ('v, 'w) reg_call \<Rightarrow> ('v, 'w) registration list" where
  "live_step regs (Listen lid eid callback) =
     regs @ [(eid, lid, \<lparr>event_type = eid, cb = callback\<rparr>)]"
| "live_step regs (Unlisten lid eid) =
     filter (\<lambda>r. \<not> (fst r = eid \<and> fst (snd r) = lid)) regs"
| "live_step regs (UnlistenAll lid) = filter (\<lambda>r. fst (snd r) \<noteq> lid) regs"

definition live :: "('v, 'w) reg_call list \<Rightarrow> ('v, 'w) registration list" where
  "live cs = foldl live_step [] cs"

text \<open>The elements of a list in the order of their first occurrence.\<close>

definition first_occ :: "'a list \<Rightarrow> 'a list" where
  "first_occ xs = rev (remdups (rev xs))"

text \<open>
  The listeners registered for a key in the order of their first registration in force,
  the callbacks of one listener for a key in the order of registration, and the groups
  that order describes.
\<close>

definition subscribers :: "('v, 'w) registration list \<Rightarrow> event_id_t \<Rightarrow> int list" where
  "subscribers regs eid = first_occ (map (\<lambda>r. fst (snd r)) (filter (\<lambda>r. fst r = eid) regs))"

definition callbacks_of ::
  "('v, 'w) registration list \<Rightarrow> event_id_t \<Rightarrow> int \<Rightarrow> ('v, 'w) Callback list" where
  "callbacks_of regs eid lid =
     map (\<lambda>r. snd (snd r)) (filter (\<lambda>r. fst r = eid \<and> fst (snd r) = lid) regs)"

definition groups_of ::
  "('v, 'w) registration list \<Rightarrow> event_id_t \<Rightarrow> ('v, 'w) EventListeners" where
  "groups_of regs eid =
     map (\<lambda>l. \<lparr>listener_id = l, calls = callbacks_of regs eid l\<rparr>) (subscribers regs eid)"

text \<open>The registry that a list of registrations in force describes.\<close>

definition registry_of :: "('v, 'w) registration list \<Rightarrow> ('v, 'w) ListenersMap" where
  "registry_of regs = (\<lambda>eid. if groups_of regs eid = [] then None else Some (groups_of regs eid))"

text \<open>
  Dispatching a list of queued entries one after the other, first in first out, each
  with the public \<^verbatim>\<open>immediate\<close> in the state the one before left.
\<close>

fun emit_each :: "'v Postponded list \<Rightarrow> ('v, 'w) state \<Rightarrow> error + ('v, 'w) state" where
  "emit_each [] s = Inr s"
| "emit_each (pe # pes) s =
     (case immediate (event pe) s of Inl err \<Rightarrow> Inl err | Inr s' \<Rightarrow> emit_each pes s')"

text \<open>
  The flush of the specification: dispatch the contents the queue has at the start in
  first-in-first-out order, each as \<^verbatim>\<open>immediate\<close> would, then clear the queue.
\<close>

definition spec_flush :: "('v, 'w) state \<Rightarrow> error + ('v, 'w) state" where
  "spec_flush s =
     (case emit_each (m_postpondedEvents (fst s)) s of
        Inl err \<Rightarrow> Inl err
      | Inr (b, w, tr) \<Rightarrow> Inr (b\<lparr>m_postpondedEvents := []\<rparr>, w, tr))"

text \<open>
  What a dispatch may do to the bus: nothing but append entries to the queue, each
  carrying the key of its value, with the capacity that takes.
\<close>

definition same_but_queue :: "('v, 'w) EventBus \<Rightarrow> ('v, 'w) EventBus \<Rightarrow> bool" where
  "same_but_queue b b' \<longleftrightarrow>
     (\<exists>ps n. b' = b\<lparr>m_postpondedEvents := m_postpondedEvents b @ ps,
                      m_postpondedEvents_capacity := n\<rparr> \<and> typed_queue ps)"

text \<open>
  The states of a bus and its surroundings that the public interface reaches from a new
  bus: \<^verbatim>\<open>post\<close>, \<^verbatim>\<open>immediate\<close>, \<^verbatim>\<open>process\<close>, the construction of a \<^verbatim>\<open>Listener\<close>, its
  \<^verbatim>\<open>listen\<close>, \<^verbatim>\<open>unlisten\<close> and \<^verbatim>\<open>unlistenAll\<close>, and whatever the surrounding program does
  to its own state in between.
\<close>

inductive reachable :: "('v, 'w) state \<Rightarrow> bool" where
  r_init: "reachable (EventBus_init, w, [])"
| r_outside: "reachable (b, w, tr) \<Longrightarrow> reachable (b, w', tr)"
| r_post: "reachable (b, w, tr) \<Longrightarrow> reachable (post e b, w, tr)"
| r_immediate: "reachable s \<Longrightarrow> immediate e s = Inr s' \<Longrightarrow> reachable s'"
| r_process: "reachable s \<Longrightarrow> process s = Inr s' \<Longrightarrow> reachable s'"
| r_new_listener: "reachable (b, w, tr) \<Longrightarrow> reachable (snd (getNewListenerId b), w, tr)"
| r_register: "reachable (b, w, tr) \<Longrightarrow> reachable (reg_step c b, w, tr)"

subsection \<open>Example buses\<close>

text \<open>
  Events carry an integer, the outside world is a list of the names of the callbacks
  that ran. The callback \<open>ex_relay\<close> posts the value it receives as an event of type 1;
  \<open>ex_sink\<close> and \<open>ex_echo\<close> post nothing. On \<open>ex_bus\<close> listener 1 relays the events of
  type 0 and listener 2 listens to type 1; one event of type 0 is queued.
\<close>

definition ex_relay :: "(int, string list) callback_t" where
  "ex_relay v w = (w @ [''relay''], [Any 1 v])"

definition ex_sink :: "(int, string list) callback_t" where
  "ex_sink v w = (w @ [''sink''], [])"

definition ex_echo :: "(int, string list) callback_t" where
  "ex_echo v w = (w @ [''echo''], [])"

definition ex_bus :: "(int, string list) EventBus" where
  "ex_bus =
     \<lparr>m_lastListenerId = 2,
      m_listeners =
        [0 \<mapsto> [\<lparr>listener_id = 1, calls = [\<lparr>event_type = 0, cb = Some ex_relay\<rparr>]\<rparr>],
         1 \<mapsto> [\<lparr>listener_id = 2, calls = [\<lparr>event_type = 1, cb = Some ex_sink\<rparr>]\<rparr>]],
      m_postpondedEvents = [\<lparr>id_pe = 0, event = Any 0 5\<rparr>],
      m_postpondedEvents_capacity = 1\<rparr>"

text \<open>The same registry with two queued events of types nobody listens to.\<close>

definition ex_idle :: "(int, string list) EventBus" where
  "ex_idle =
     ex_bus\<lparr>m_postpondedEvents := [\<lparr>id_pe = 7, event = Any 7 3\<rparr>, \<lparr>id_pe = 8, event = Any 8 4\<rparr>],
            m_postpondedEvents_capacity := 2\<rparr>"

text \<open>
  Listener 1 listens to the types 0 and 1, listener 2 to type 0, registered after
  listener 1. Nothing is queued.
\<close>

definition ex_shared :: "(int, string list) EventBus" where
  "ex_shared =
     \<lparr>m_lastListenerId = 2,
      m_listeners =
        [0 \<mapsto> [\<lparr>listener_id = 1, calls = [\<lparr>event_type = 0, cb = Some ex_relay\<rparr>]\<rparr>,
              \<lparr>listener_id = 2, calls = [\<lparr>event_type = 0, cb = Some ex_sink\<rparr>]\<rparr>],
         1 \<mapsto> [\<lparr>listener_id = 1, calls = [\<lparr>event_type = 1, cb = Some ex_sink\<rparr>]\<rparr>]],
      m_postpondedEvents = [],
      m_postpondedEvents_capacity = 0\<rparr>"

text \<open>
  Listener 1 registers three callbacks for type 0 on a new bus; the second is an empty
  function.
\<close>

definition ex_gap :: "(int, string list) EventBus" where
  "ex_gap = reg_run [Listen 1 0 (Some ex_relay), Listen 1 0 None, Listen 1 0 (Some ex_sink)] EventBus_init"

text \<open>
  A history of three listeners on one bus: listener 1 registers, then listener 2, then
  listener 1 again; listener 3 registers and revokes.
\<close>

definition ex_history :: "(int, string list) reg_call list" where
  "ex_history =
     [Listen 1 0 (Some ex_sink), Listen 2 0 (Some ex_echo), Listen 1 0 (Some ex_relay),
      Listen 3 0 (Some ex_sink), Unlisten 3 0]"

text \<open>
  Three events of two types are queued on \<open>ex_fifo\<close>, whose callbacks post nothing. On
  \<open>ex_roomy\<close> the relay of \<open>ex_bus\<close> finds two events queued in a vector with room for
  four.
\<close>

definition ex_fifo :: "(int, string list) EventBus" where
  "ex_fifo =
     \<lparr>m_lastListenerId = 2,
      m_listeners =
        [0 \<mapsto> [\<lparr>listener_id = 1, calls = [\<lparr>event_type = 0, cb = Some ex_echo\<rparr>]\<rparr>],
         1 \<mapsto> [\<lparr>listener_id = 2, calls = [\<lparr>event_type = 1, cb = Some ex_sink\<rparr>]\<rparr>]],
      m_postpondedEvents =
        [\<lparr>id_pe = 0, event = Any 0 1\<rparr>, \<lparr>id_pe = 1, event = Any 1 2\<rparr>, \<lparr>id_pe = 0, event = Any 0 3\<rparr>],
      m_postpondedEvents_capacity = 4\<rparr>"

definition ex_roomy :: "(int, string list) EventBus" where
  "ex_roomy =
     ex_bus\<lparr>m_postpondedEvents := [\<lparr>id_pe = 0, event = Any 0 5\<rparr>, \<lparr>id_pe = 0, event = Any 0 6\<rparr>],
            m_postpondedEvents_capacity := 4\<rparr>"

section \<open>Lemmas\<close>

subsection \<open>The vector helpers and the groups of one key\<close>

lemma erase_if_filter: "erase_if xs pred = filter (\<lambda>x. \<not> pred x) xs"
  by (induction xs) auto

lemma find_if_None: "find_if xs pred = None \<longleftrightarrow> (\<forall>x \<in> set xs. \<not> pred x)"
  by (induction xs) auto

lemma add_call_Nil: "add_call [] lid c = [\<lparr>listener_id = lid, calls = [c]\<rparr>]"
  by (simp add: add_call_def)

lemma add_call_Cons:
  "add_call (el # els) lid c =
     (if listener_id el = lid then el\<lparr>calls := calls el @ [c]\<rparr> # els
      else el # add_call els lid c)"
  by (cases "find_if els (\<lambda>elem. listener_id elem = lid)") (simp_all add: add_call_def)

lemma add_call_absent:
  "lid \<notin> listener_id ` set els \<Longrightarrow> add_call els lid c = els @ [\<lparr>listener_id = lid, calls = [c]\<rparr>]"
  by (induction els) (auto simp: add_call_Nil add_call_Cons)

lemma add_call_present:
  "distinct (map listener_id els) \<Longrightarrow> lid \<in> listener_id ` set els \<Longrightarrow>
   add_call els lid c =
     map (\<lambda>el. if listener_id el = lid then el\<lparr>calls := calls el @ [c]\<rparr> else el) els"
proof (induction els)
  case Nil
  then show ?case by simp
next
  case (Cons el els)
  show ?case
  proof (cases "listener_id el = lid")
    case True
    with Cons.prems have "\<forall>x \<in> set els. listener_id x \<noteq> lid"
      by (auto simp: image_iff)
    then have "map (\<lambda>el. if listener_id el = lid then el\<lparr>calls := calls el @ [c]\<rparr> else el) els = els"
      by (induction els) auto
    with True show ?thesis by (simp add: add_call_Cons)
  next
    case False
    with Cons show ?thesis by (auto simp: add_call_Cons)
  qed
qed

lemma listener_id_add_call:
  "map listener_id (add_call els lid c) =
     (if lid \<in> listener_id ` set els then map listener_id els else map listener_id els @ [lid])"
  by (induction els) (auto simp: add_call_Nil add_call_Cons)

lemma add_call_not_Nil: "add_call els lid c \<noteq> []"
  by (cases els) (auto simp: add_call_Nil add_call_Cons)


subsection \<open>What a dispatch does\<close>

lemma same_but_queue_refl: "same_but_queue b b"
proof -
  have "b = b\<lparr>m_postpondedEvents := m_postpondedEvents b @ [],
             m_postpondedEvents_capacity := m_postpondedEvents_capacity b\<rparr>"
    by simp
  moreover have "typed_queue []" by (simp add: typed_queue_def)
  ultimately show ?thesis unfolding same_but_queue_def by blast
qed

lemma same_but_queue_post: "same_but_queue b (post e b)"
proof -
  have "typed_queue [\<lparr>id_pe = any_type e, event = e\<rparr>]" by (simp add: typed_queue_def)
  then show ?thesis unfolding same_but_queue_def post_def by blast
qed

lemma same_but_queue_trans:
  assumes "same_but_queue b b'" and "same_but_queue b' b''"
  shows "same_but_queue b b''"
proof -
  from assms(1) obtain ps n where
    1: "b' = b\<lparr>m_postpondedEvents := m_postpondedEvents b @ ps, m_postpondedEvents_capacity := n\<rparr>"
      "typed_queue ps"
    unfolding same_but_queue_def by blast
  from assms(2) obtain ps' n' where
    2: "b'' = b'\<lparr>m_postpondedEvents := m_postpondedEvents b' @ ps',
                 m_postpondedEvents_capacity := n'\<rparr>" "typed_queue ps'"
    unfolding same_but_queue_def by blast
  have "b'' = b\<lparr>m_postpondedEvents := m_postpondedEvents b @ (ps @ ps'),
                m_postpondedEvents_capacity := n'\<rparr>"
    using 1 2 by simp
  moreover have "typed_queue (ps @ ps')"
    using 1 2 by (auto simp: typed_queue_def)
  ultimately show ?thesis
    unfolding same_but_queue_def by blast
qed

lemma same_but_queue_foldl_post: "same_but_queue b (foldl (\<lambda>b' p. post p b') b ps)"
proof (induction ps arbitrary: b)
  case Nil
  show ?case by (simp add: same_but_queue_refl)
next
  case (Cons p ps)
  from same_but_queue_post [of b p] Cons [of "post p b"] show ?case
    by (auto intro: same_but_queue_trans)
qed

lemma execute_Inr:
  assumes "execute c e (b, w, tr) = Inr (b', w', tr')"
  shows "same_but_queue b b' \<and> tr' = tr @ map (\<lambda>c. (c, e)) (filter (\<lambda>c. cb c \<noteq> None) [c])"
  using assms
  by (auto simp: execute_def same_but_queue_refl same_but_queue_foldl_post
      split: option.splits if_splits prod.splits)

lemma execute_calls_Inr:
  "execute_calls cs e (b, w, tr) = Inr (b', w', tr') \<Longrightarrow>
   same_but_queue b b' \<and> tr' = tr @ map (\<lambda>c. (c, e)) (filter (\<lambda>c. cb c \<noteq> None) cs)"
proof (induction cs arbitrary: b w tr)
  case Nil
  then show ?case by (simp add: same_but_queue_refl)
next
  case (Cons c cs)
  from Cons.prems obtain b1 w1 tr1 where
    1: "execute c e (b, w, tr) = Inr (b1, w1, tr1)" and
    2: "execute_calls cs e (b1, w1, tr1) = Inr (b', w', tr')"
    by (auto split: sum.splits)
  from execute_Inr [OF 1] Cons.IH [OF 2] show ?case
    by (auto intro: same_but_queue_trans)
qed

lemma visit_listeners_Inr:
  "visit_listeners els e (b, w, tr) = Inr (b', w', tr') \<Longrightarrow>
   same_but_queue b b' \<and> tr' = tr @ invocations els e"
proof (induction els arbitrary: b w tr)
  case Nil
  then show ?case by (simp add: same_but_queue_refl invocations_def)
next
  case (Cons el els)
  from Cons.prems obtain b1 w1 tr1 where
    1: "execute_calls (calls el) e (b, w, tr) = Inr (b1, w1, tr1)" and
    2: "visit_listeners els e (b1, w1, tr1) = Inr (b', w', tr')"
    by (auto split: sum.splits)
  from execute_calls_Inr [OF 1] Cons.IH [OF 2] show ?case
    by (auto simp: invocations_def intro: same_but_queue_trans)
qed

lemma immediate_id_Inr:
  "immediate_id eid e (b, w, tr) = Inr (b', w', tr') \<Longrightarrow>
   same_but_queue b b' \<and> tr' = tr @ invocations (groups (m_listeners b) eid) e"
  by (auto simp: immediate_id_def groups_def invocations_def same_but_queue_refl
      split: option.splits dest: visit_listeners_Inr)

text \<open>A dispatch over a typed registry throws nothing.\<close>

lemma not_isl_Inr: "\<not> isl x \<Longrightarrow> \<exists>y. x = Inr y"
  by (cases x) auto

lemma execute_total:
  "cb c = None \<or> event_type c = any_type e \<Longrightarrow> \<not> isl (execute c e s)"
  by (cases s) (auto simp: execute_def split: option.splits prod.splits)

lemma execute_calls_total:
  "\<forall>c \<in> set cs. cb c = None \<or> event_type c = any_type e \<Longrightarrow> \<not> isl (execute_calls cs e s)"
proof (induction cs arbitrary: s)
  case Nil
  then show ?case by simp
next
  case (Cons c cs)
  then have "\<not> isl (execute c e s)"
    by (simp add: execute_total)
  with Cons show ?case by (cases "execute c e s") auto
qed

lemma visit_listeners_total:
  "\<forall>el \<in> set els. \<forall>c \<in> set (calls el). cb c = None \<or> event_type c = any_type e \<Longrightarrow>
   \<not> isl (visit_listeners els e s)"
proof (induction els arbitrary: s)
  case Nil
  then show ?case by simp
next
  case (Cons el els)
  then have "\<not> isl (execute_calls (calls el) e s)"
    by (simp add: execute_calls_total)
  with Cons show ?case by (cases "execute_calls (calls el) e s") auto
qed

lemma immediate_id_total:
  "typed_registry (m_listeners (fst s)) \<Longrightarrow> eid = any_type e \<Longrightarrow> \<not> isl (immediate_id eid e s)"
  unfolding immediate_id_def
  by (cases "m_listeners (fst s) (any_type e)")
     (auto simp: typed_registry_def intro!: visit_listeners_total)

subsection \<open>The queue during a flush\<close>

lemma same_but_queue_fields:
  "same_but_queue b b' \<Longrightarrow>
   m_listeners b' = m_listeners b \<and> m_lastListenerId b' = m_lastListenerId b \<and>
   (\<exists>ps. m_postpondedEvents b' = m_postpondedEvents b @ ps)"
  by (auto simp: same_but_queue_def)

lemma immediate_Inr:
  "immediate e (b, w, tr) = Inr (b', w', tr') \<Longrightarrow>
   same_but_queue b b' \<and> tr' = tr @ invocations (groups (m_listeners b) (any_type e)) e"
  unfolding immediate_def by (rule immediate_id_Inr)

lemma emit_each_Inr:
  "emit_each pes (b, w, tr) = Inr (b', w', tr') \<Longrightarrow>
   same_but_queue b b' \<and>
   tr' = tr @ concat (map (\<lambda>pe. invocations (groups (m_listeners b) (any_type (event pe))) (event pe)) pes)"
proof (induction pes arbitrary: b w tr)
  case Nil
  then show ?case by (simp add: same_but_queue_refl)
next
  case (Cons pe pes)
  from Cons.prems obtain b1 w1 tr1 where
    1: "immediate (event pe) (b, w, tr) = Inr (b1, w1, tr1)" and
    2: "emit_each pes (b1, w1, tr1) = Inr (b', w', tr')"
    by (auto split: sum.splits)
  from immediate_Inr [OF 1] have 3: "same_but_queue b b1" and
    4: "tr1 = tr @ invocations (groups (m_listeners b) (any_type (event pe))) (event pe)"
    by simp_all
  from 3 have 5: "m_listeners b1 = m_listeners b"
    by (simp add: same_but_queue_fields)
  from Cons.IH [OF 2] 3 4 5 show ?case
    by (auto intro: same_but_queue_trans)
qed

lemma emit_each_total:
  "typed_registry (m_listeners (fst s)) \<Longrightarrow> \<not> isl (emit_each pes s)"
proof (induction pes arbitrary: s)
  case Nil
  then show ?case by simp
next
  case (Cons pe pes)
  have 1: "\<not> isl (immediate (event pe) s)"
    unfolding immediate_def using Cons.prems by (simp add: immediate_id_total)
  then obtain s1 where 2: "immediate (event pe) s = Inr s1"
    by (cases "immediate (event pe) s") auto
  obtain b w tr where s: "s = (b, w, tr)" by (cases s) auto
  obtain b1 w1 tr1 where s1: "s1 = (b1, w1, tr1)" by (cases s1) auto
  from 2 s s1 have "same_but_queue b b1"
    by (auto dest: immediate_Inr)
  then have "m_listeners b1 = m_listeners b"
    by (simp add: same_but_queue_fields)
  with Cons.prems s s1 have "typed_registry (m_listeners (fst s1))" by simp
  from Cons.IH [OF this] 2 show ?case by simp
qed

text \<open>
  Unless the loop ends on an invalidated iterator, it is the dispatch of the entries the
  range held at the start, one after the other.
\<close>

lemma process_loop_emit_each:
  "i + k \<le> length (m_postpondedEvents b) \<Longrightarrow>
   typed_queue (take k (drop i (m_postpondedEvents b))) \<Longrightarrow>
   process_loop k i (b, w, tr) \<noteq> Inl invalidated_iterator \<Longrightarrow>
   process_loop k i (b, w, tr) = emit_each (take k (drop i (m_postpondedEvents b))) (b, w, tr)"
proof (induction k arbitrary: i b w tr)
  case 0
  then show ?case by simp
next
  case (Suc k)
  let ?q = "m_postpondedEvents b"
  let ?pe = "?q ! i"
  from Suc.prems(1) have i: "i < length ?q" by simp
  then have split: "take (Suc k) (drop i ?q) = ?pe # take k (drop (Suc i) ?q)"
    by (simp add: Cons_nth_drop_Suc [symmetric])
  with Suc.prems(2) have ty: "id_pe ?pe = any_type (event ?pe)"
    and tyr: "typed_queue (take k (drop (Suc i) ?q))"
    by (simp_all add: typed_queue_def)
  show ?case
  proof (cases "immediate (event ?pe) (b, w, tr)")
    case (Inl err)
    with ty split show ?thesis by (simp add: immediate_def)
  next
    case (Inr s1)
    obtain b1 w1 tr1 where s1: "s1 = (b1, w1, tr1)" by (cases s1) auto
    from Inr s1 ty have eq: "process_loop (Suc k) i (b, w, tr) =
        (if 0 < k \<and> m_postpondedEvents_capacity b1 \<noteq> m_postpondedEvents_capacity b
         then Inl invalidated_iterator else process_loop k (Suc i) (b1, w1, tr1))"
      by (simp add: immediate_def)
    with Suc.prems(3) have
      stay: "\<not> (0 < k \<and> m_postpondedEvents_capacity b1 \<noteq> m_postpondedEvents_capacity b)"
      and ne: "process_loop k (Suc i) (b1, w1, tr1) \<noteq> Inl invalidated_iterator"
      by (auto split: if_splits)
    from Inr s1 have "same_but_queue b b1" by (auto dest: immediate_Inr)
    then obtain ps where q1: "m_postpondedEvents b1 = ?q @ ps"
      using same_but_queue_fields by blast
    from Suc.prems(1) have len: "Suc i + k \<le> length ?q" by simp
    with q1 have same: "take k (drop (Suc i) (m_postpondedEvents b1)) = take k (drop (Suc i) ?q)"
      by simp
    from len q1 have len1: "Suc i + k \<le> length (m_postpondedEvents b1)" by simp
    from tyr same have ty1: "typed_queue (take k (drop (Suc i) (m_postpondedEvents b1)))" by simp
    from Suc.IH [OF len1 ty1 ne] have
      "process_loop k (Suc i) (b1, w1, tr1) = emit_each (take k (drop (Suc i) ?q)) (b1, w1, tr1)"
      using same by simp
    moreover from eq stay have
      "process_loop (Suc k) i (b, w, tr) = process_loop k (Suc i) (b1, w1, tr1)"
      by (simp only: if_False)
    moreover from Inr s1 split have
      "emit_each (take (Suc k) (drop i ?q)) (b, w, tr) =
         emit_each (take k (drop (Suc i) ?q)) (b1, w1, tr1)"
      by simp
    ultimately show ?thesis by simp
  qed
qed

lemma process_spec_flush_aux:
  assumes "typed_queue (m_postpondedEvents b)"
    and "process (b, w, tr) \<noteq> Inl invalidated_iterator"
  shows "process (b, w, tr) = spec_flush (b, w, tr)"
proof -
  from assms(2) have
    "process_loop (length (m_postpondedEvents b)) 0 (b, w, tr) \<noteq> Inl invalidated_iterator"
    by (auto simp: process_def)
  with assms(1) have "process_loop (length (m_postpondedEvents b)) 0 (b, w, tr)
      = emit_each (m_postpondedEvents b) (b, w, tr)"
    using process_loop_emit_each [of 0 "length (m_postpondedEvents b)" b w tr] by simp
  then show ?thesis by (simp add: process_def spec_flush_def)
qed

lemma spec_flush_result:
  assumes "typed_registry (m_listeners b)" and "typed_queue (m_postpondedEvents b)"
  shows "\<exists>b' w'. spec_flush (b, w, tr) =
           Inr (b', w',
                tr @ concat (map (\<lambda>pe. invocations (groups (m_listeners b) (id_pe pe)) (event pe))
                               (m_postpondedEvents b))) \<and>
           m_postpondedEvents b' = [] \<and> m_listeners b' = m_listeners b \<and>
           m_lastListenerId b' = m_lastListenerId b"
proof -
  have "\<not> isl (emit_each (m_postpondedEvents b) (b, w, tr))"
    using assms(1) by (simp add: emit_each_total)
  then obtain s1 where 1: "emit_each (m_postpondedEvents b) (b, w, tr) = Inr s1"
    by (cases "emit_each (m_postpondedEvents b) (b, w, tr)") auto
  obtain b1 w1 tr1 where s1: "s1 = (b1, w1, tr1)" by (cases s1) auto
  from emit_each_Inr [OF 1 [unfolded s1]] have
    2: "same_but_queue b b1" and
    3: "tr1 = tr @ concat (map (\<lambda>pe. invocations (groups (m_listeners b) (any_type (event pe))) (event pe))
                               (m_postpondedEvents b))"
    by simp_all
  from assms(2) have "map (\<lambda>pe. invocations (groups (m_listeners b) (any_type (event pe))) (event pe))
                               (m_postpondedEvents b) =
     map (\<lambda>pe. invocations (groups (m_listeners b) (id_pe pe)) (event pe)) (m_postpondedEvents b)"
    by (simp add: typed_queue_def)
  with 3 have 4: "tr1 = tr @ concat (map (\<lambda>pe. invocations (groups (m_listeners b) (id_pe pe)) (event pe))
                               (m_postpondedEvents b))" by simp
  from 2 have 5: "m_listeners b1 = m_listeners b" "m_lastListenerId b1 = m_lastListenerId b"
    by (simp_all add: same_but_queue_fields)
  from 1 s1 4 5 show ?thesis
    by (simp add: spec_flush_def)
qed

text \<open>
  On a typed bus \<^verbatim>\<open>process\<close> either ends on an invalidated iterator or returns with the
  queue empty, the registry as it was, and the invocations of a dispatch of each entry
  queued at the start.
\<close>

lemma process_outcome:
  assumes "typed_registry (m_listeners b)" and "typed_queue (m_postpondedEvents b)"
  shows "process (b, w, tr) = Inl invalidated_iterator \<or>
         (\<exists>b' w'. process (b, w, tr) =
           Inr (b', w',
                tr @ concat (map (\<lambda>pe. invocations (groups (m_listeners b) (id_pe pe)) (event pe))
                               (m_postpondedEvents b))) \<and>
           m_postpondedEvents b' = [] \<and> m_listeners b' = m_listeners b \<and>
           m_lastListenerId b' = m_lastListenerId b)"
proof (cases "process (b, w, tr) = Inl invalidated_iterator")
  case True
  then show ?thesis by simp
next
  case False
  with assms(2) have "process (b, w, tr) = spec_flush (b, w, tr)"
    by (rule process_spec_flush_aux)
  with spec_flush_result [OF assms, of w tr] show ?thesis by simp
qed

lemma process_loop_no_entry:
  "\<forall>j. i \<le> j \<and> j < i + k \<longrightarrow> m_listeners b (id_pe (m_postpondedEvents b ! j)) = None \<Longrightarrow>
   process_loop k i (b, w, tr) = Inr (b, w, tr)"
proof (induction k arbitrary: i)
  case 0
  then show ?case by simp
next
  case (Suc k)
  from Suc.prems have 1: "m_listeners b (id_pe (m_postpondedEvents b ! i)) = None" by simp
  from Suc.prems have
    "\<forall>j. Suc i \<le> j \<and> j < Suc i + k \<longrightarrow> m_listeners b (id_pe (m_postpondedEvents b ! j)) = None"
    by simp
  from Suc.IH [OF this] 1 show ?case
    by (simp add: immediate_id_def)
qed


lemma typed_ex_bus: "typed_registry (m_listeners ex_bus) \<and> typed_queue (m_postpondedEvents ex_bus)"
  by (auto simp: typed_registry_def typed_queue_def ex_bus_def split: if_splits)


subsection \<open>Removal\<close>

lemma groups_removeListener:
  "groups (m_listeners (removeListener eid lid b)) eid =
     filter (\<lambda>el. listener_id el \<noteq> lid) (groups (m_listeners b) eid)"
  by (simp add: removeListener_def groups_def erase_if_filter Let_def split: option.splits)

lemma removeListener_other:
  "eid' \<noteq> eid \<Longrightarrow> m_listeners (removeListener eid lid b) eid' = m_listeners b eid'"
  by (simp add: removeListener_def Let_def split: option.splits)

lemma removeListener_key:
  "(m_listeners (removeListener eid lid b) eid = None) =
     (filter (\<lambda>el. listener_id el \<noteq> lid) (groups (m_listeners b) eid) = [])"
  by (simp add: removeListener_def groups_def erase_if_filter Let_def split: option.splits)

lemma removeListener_rest:
  "m_lastListenerId (removeListener eid lid b) = m_lastListenerId b \<and>
   m_postpondedEvents (removeListener eid lid b) = m_postpondedEvents b"
  by (simp add: removeListener_def Let_def split: option.splits)

lemma removeListener_absent:
  assumes "wf_registry (m_listeners b)"
    and "lid \<notin> listener_id ` set (groups (m_listeners b) eid)"
  shows "removeListener eid lid b = b"
proof (cases "m_listeners b eid")
  case None
  then show ?thesis by (simp add: removeListener_def)
next
  case (Some els)
  with assms(1) have ne: "els \<noteq> []" by (auto simp: wf_registry_def)
  from Some assms(2) have "filter (\<lambda>el. listener_id el \<noteq> lid) els = els"
    by (auto simp: groups_def intro!: filter_True)
  moreover from Some have "(m_listeners b)(eid \<mapsto> els) = m_listeners b"
    by (simp add: map_upd_triv)
  ultimately show ?thesis
    using Some ne by (simp add: removeListener_def erase_if_filter)
qed

lemma distinct_one_group:
  "distinct (map listener_id els) \<Longrightarrow> length (filter (\<lambda>el. listener_id el = lid) els) \<le> 1"
  by (induction els) (auto simp: image_iff filter_empty_conv)

lemma wf_groups: "wf_registry r \<Longrightarrow> distinct (map listener_id (groups r eid))"
  by (auto simp: wf_registry_def groups_def split: option.splits)

lemma wf_ex_shared: "wf_registry (m_listeners ex_shared)"
  by (auto simp: wf_registry_def ex_shared_def split: if_splits)

lemma groups_removeListener_all:
  "groups (m_listeners (removeListener_all lid b)) eid =
     filter (\<lambda>el. listener_id el \<noteq> lid) (groups (m_listeners b) eid)"
  by (simp add: removeListener_all_def groups_def erase_if_filter Let_def split: option.splits)

lemma removeListener_all_no_empty:
  "m_listeners (removeListener_all lid b) eid \<noteq> Some []"
  by (simp add: removeListener_all_def Let_def split: option.splits)

lemma removeListener_all_idem:
  "removeListener_all lid (removeListener_all lid b) = removeListener_all lid b"
proof -
  have "(\<lambda>eid. case m_listeners (removeListener_all lid b) eid of
           None \<Rightarrow> None
         | Some els \<Rightarrow>
             (let els' = erase_if els (\<lambda>elem. listener_id elem = lid) in
              if els' = [] then None else Some els')) = m_listeners (removeListener_all lid b)"
    by (rule ext) (simp add: removeListener_all_def erase_if_filter Let_def split: option.splits)
  then show ?thesis
    by (simp add: removeListener_all_def [of lid "removeListener_all lid b"])
qed

subsection \<open>Registration, and the invariants of the interface\<close>

lemma distinct_add_call:
  "distinct (map listener_id els) \<Longrightarrow> distinct (map listener_id (add_call els lid c))"
  by (simp add: listener_id_add_call)

lemma groups_addListener:
  "groups (m_listeners (addListener eid lid c b)) eid = add_call (groups (m_listeners b) eid) lid c"
  by (simp add: addListener_def groups_def)

lemma addListener_other:
  "eid' \<noteq> eid \<Longrightarrow> m_listeners (addListener eid lid c b) eid' = m_listeners b eid'"
  by (simp add: addListener_def)

lemma addListener_key:
  "m_listeners (addListener eid lid c b) eid = Some (add_call (groups (m_listeners b) eid) lid c)"
  by (simp add: addListener_def groups_def)

lemma addListener_rest:
  "m_lastListenerId (addListener eid lid c b) = m_lastListenerId b \<and>
   m_postpondedEvents (addListener eid lid c b) = m_postpondedEvents b"
  by (simp add: addListener_def)

lemma wf_addListener:
  assumes "wf_registry (m_listeners b)"
  shows "wf_registry (m_listeners (addListener eid lid c b))"
  unfolding wf_registry_def
proof (intro allI impI)
  fix eid' els
  assume a: "m_listeners (addListener eid lid c b) eid' = Some els"
  show "els \<noteq> [] \<and> distinct (map listener_id els)"
  proof (cases "eid' = eid")
    case True
    with a have "els = add_call (groups (m_listeners b) eid) lid c"
      by (simp add: addListener_key)
    then show ?thesis
      using assms by (simp add: add_call_not_Nil distinct_add_call wf_groups)
  next
    case False
    with a have "m_listeners b eid' = Some els" by (simp add: addListener_other)
    with assms show ?thesis by (simp add: wf_registry_def)
  qed
qed

lemma wf_removeListener:
  assumes "wf_registry (m_listeners b)"
  shows "wf_registry (m_listeners (removeListener eid lid b))"
  unfolding wf_registry_def
proof (intro allI impI)
  fix eid' els
  assume a: "m_listeners (removeListener eid lid b) eid' = Some els"
  show "els \<noteq> [] \<and> distinct (map listener_id els)"
  proof (cases "eid' = eid")
    case True
    from a True have g: "groups (m_listeners (removeListener eid lid b)) eid = els"
      by (simp add: groups_def)
    from a True have "filter (\<lambda>el. listener_id el \<noteq> lid) (groups (m_listeners b) eid) \<noteq> []"
      using removeListener_key [of eid lid b] by auto
    with g have "els \<noteq> []" by (simp add: groups_removeListener)
    moreover from g have "distinct (map listener_id els)"
      using wf_groups [OF assms, of eid] by (auto simp: groups_removeListener distinct_map_filter)
    ultimately show ?thesis by simp
  next
    case False
    with a have "m_listeners b eid' = Some els" by (simp add: removeListener_other)
    with assms show ?thesis by (simp add: wf_registry_def)
  qed
qed

lemma wf_removeListener_all:
  assumes "wf_registry (m_listeners b)"
  shows "wf_registry (m_listeners (removeListener_all lid b))"
  unfolding wf_registry_def
proof (intro allI impI)
  fix eid els
  assume a: "m_listeners (removeListener_all lid b) eid = Some els"
  then have g: "groups (m_listeners (removeListener_all lid b)) eid = els"
    by (simp add: groups_def)
  from a have "els \<noteq> []"
    using removeListener_all_no_empty [of lid b eid] by auto
  moreover from g have "distinct (map listener_id els)"
    using wf_groups [OF assms, of eid] by (auto simp: groups_removeListener_all distinct_map_filter)
  ultimately show "els \<noteq> [] \<and> distinct (map listener_id els)" by simp
qed

lemma wf_reg_step: "wf_registry (m_listeners b) \<Longrightarrow> wf_registry (m_listeners (reg_step c b))"
  by (cases c) (simp_all add: wf_addListener wf_removeListener wf_removeListener_all)

lemma process_loop_Inr:
  "process_loop k i (b, w, tr) = Inr (b', w', tr') \<Longrightarrow> same_but_queue b b'"
proof (induction k arbitrary: i b w tr)
  case 0
  then show ?case by (simp add: same_but_queue_refl)
next
  case (Suc k)
  let ?pe = "m_postpondedEvents b ! i"
  from Suc.prems obtain b1 w1 tr1 where
    1: "immediate_id (id_pe ?pe) (event ?pe) (b, w, tr) = Inr (b1, w1, tr1)" and
    2: "process_loop k (Suc i) (b1, w1, tr1) = Inr (b', w', tr')"
    by (auto simp: Let_def split: sum.splits if_splits)
  from immediate_id_Inr [OF 1] Suc.IH [OF 2] show ?case
    by (auto intro: same_but_queue_trans)
qed

lemma process_Inr:
  assumes "process (b, w, tr) = Inr (b', w', tr')"
  shows "m_listeners b' = m_listeners b \<and> m_lastListenerId b' = m_lastListenerId b \<and>
         m_postpondedEvents b' = []"
proof -
  from assms obtain b1 where
    1: "process_loop (length (m_postpondedEvents b)) 0 (b, w, tr) = Inr (b1, w', tr')" and
    2: "b' = b1\<lparr>m_postpondedEvents := []\<rparr>"
    by (auto simp: process_def split: sum.splits)
  from process_loop_Inr [OF 1] 2 show ?thesis
    by (simp add: same_but_queue_fields)
qed

lemma calls_add_call:
  "(\<Union>el \<in> set (add_call els lid c). set (calls el)) = (\<Union>el \<in> set els. set (calls el)) \<union> {c}"
  by (induction els) (auto simp: add_call_Nil add_call_Cons)

lemma typed_groups:
  "typed_registry r = (\<forall>eid. \<forall>el \<in> set (groups r eid). \<forall>c \<in> set (calls el). event_type c = eid)"
proof
  assume t: "typed_registry r"
  show "\<forall>eid. \<forall>el \<in> set (groups r eid). \<forall>c \<in> set (calls el). event_type c = eid"
  proof (intro allI ballI)
    fix eid el c
    assume el: "el \<in> set (groups r eid)" and c: "c \<in> set (calls el)"
    then obtain els where "r eid = Some els" "el \<in> set els"
      by (cases "r eid") (auto simp: groups_def)
    with t c show "event_type c = eid"
      unfolding typed_registry_def by blast
  qed
next
  assume g: "\<forall>eid. \<forall>el \<in> set (groups r eid). \<forall>c \<in> set (calls el). event_type c = eid"
  show "typed_registry r"
    unfolding typed_registry_def
  proof (intro allI impI ballI)
    fix eid els el c
    assume "r eid = Some els" and "el \<in> set els" and c: "c \<in> set (calls el)"
    then have "el \<in> set (groups r eid)" by (simp add: groups_def)
    with g c show "event_type c = eid" by blast
  qed
qed

lemma typed_addListener:
  assumes "typed_registry (m_listeners b)" and "event_type c = eid"
  shows "typed_registry (m_listeners (addListener eid lid c b))"
  unfolding typed_registry_def
proof (intro allI impI ballI)
  fix eid' els el c'
  assume a: "m_listeners (addListener eid lid c b) eid' = Some els"
    and el: "el \<in> set els" and c': "c' \<in> set (calls el)"
  show "event_type c' = eid'"
  proof (cases "eid' = eid")
    case True
    with a have "els = add_call (groups (m_listeners b) eid) lid c"
      by (simp add: addListener_key)
    with el c' have "c' \<in> (\<Union>el \<in> set (add_call (groups (m_listeners b) eid) lid c). set (calls el))"
      by auto
    then have "c' \<in> (\<Union>el \<in> set (groups (m_listeners b) eid). set (calls el)) \<or> c' = c"
      by (auto simp: calls_add_call)
    with assms True show ?thesis
      by (auto simp: typed_groups)
  next
    case False
    with a have "m_listeners b eid' = Some els" by (simp add: addListener_other)
    with assms(1) el c' show ?thesis by (auto simp: typed_registry_def)
  qed
qed

lemma typed_removeListener:
  assumes "typed_registry (m_listeners b)"
  shows "typed_registry (m_listeners (removeListener eid lid b))"
  unfolding typed_groups
proof (intro allI ballI)
  fix eid' el c
  assume el: "el \<in> set (groups (m_listeners (removeListener eid lid b)) eid')"
    and c: "c \<in> set (calls el)"
  have "el \<in> set (groups (m_listeners b) eid')"
  proof (cases "eid' = eid")
    case True
    with el show ?thesis by (simp add: groups_removeListener)
  next
    case False
    with el show ?thesis by (simp add: groups_def removeListener_other)
  qed
  with assms c show "event_type c = eid'" by (auto simp: typed_groups)
qed

lemma typed_removeListener_all:
  assumes "typed_registry (m_listeners b)"
  shows "typed_registry (m_listeners (removeListener_all lid b))"
  using assms unfolding typed_groups by (auto simp: groups_removeListener_all)

lemma typed_reg_step:
  "typed_registry (m_listeners b) \<Longrightarrow> typed_registry (m_listeners (reg_step c b))"
  by (cases c) (simp_all add: typed_addListener typed_removeListener typed_removeListener_all)

lemma reg_step_rest:
  "m_postpondedEvents (reg_step c b) = m_postpondedEvents b \<and>
   m_lastListenerId (reg_step c b) = m_lastListenerId b"
  by (cases c) (simp_all add: addListener_rest removeListener_rest removeListener_all_def)

lemma same_but_queue_typed:
  "same_but_queue b b' \<Longrightarrow> typed_queue (m_postpondedEvents b) \<Longrightarrow> typed_queue (m_postpondedEvents b')"
  by (auto simp: same_but_queue_def typed_queue_def)

lemma reachable_typed:
  "reachable s \<Longrightarrow>
   typed_registry (m_listeners (fst s)) \<and> typed_queue (m_postpondedEvents (fst s))"
proof (induction s rule: reachable.induct)
  case (r_init w)
  show ?case by (simp add: EventBus_init_def typed_registry_def typed_queue_def)
next
  case (r_outside b w tr w')
  then show ?case by simp
next
  case (r_post b w tr e)
  then show ?case by (simp add: post_def typed_queue_def)
next
  case (r_immediate s e s')
  obtain b w tr where s: "s = (b, w, tr)" by (cases s) auto
  obtain b' w' tr' where s': "s' = (b', w', tr')" by (cases s') auto
  from r_immediate.hyps(2) s s' have q: "same_but_queue b b'"
    by (auto dest: immediate_Inr)
  then have "m_listeners b' = m_listeners b" by (simp add: same_but_queue_fields)
  with r_immediate.IH s s' same_but_queue_typed [OF q] show ?case by simp
next
  case (r_process s s')
  obtain b w tr where s: "s = (b, w, tr)" by (cases s) auto
  obtain b' w' tr' where s': "s' = (b', w', tr')" by (cases s') auto
  from r_process.hyps(2) s s' have "m_listeners b' = m_listeners b \<and> m_postpondedEvents b' = []"
    by (auto dest: process_Inr)
  with r_process.IH s s' show ?case by (simp add: typed_queue_def)
next
  case (r_new_listener b w tr)
  then show ?case by (simp add: getNewListenerId_def)
next
  case (r_register b w tr c)
  then show ?case by (simp add: typed_reg_step reg_step_rest)
qed

lemma reachable_dispatch_returns:
  assumes "reachable s"
  shows "(\<exists>s'. immediate e s = Inr s') \<and>
         (process s = Inl invalidated_iterator \<or> (\<exists>s'. process s = Inr s'))"
proof
  from reachable_typed [OF assms] have
    ty: "typed_registry (m_listeners (fst s))" and tq: "typed_queue (m_postpondedEvents (fst s))"
    by simp_all
  from ty have "\<not> isl (immediate e s)"
    unfolding immediate_def by (simp add: immediate_id_total)
  then show "\<exists>s'. immediate e s = Inr s'" by (rule not_isl_Inr)
  obtain b w tr where s: "s = (b, w, tr)" by (cases s) auto
  from process_outcome [of b w tr] ty tq s
  show "process s = Inl invalidated_iterator \<or> (\<exists>s'. process s = Inr s')" by auto
qed

lemma add_call_last:
  "\<exists>el \<in> set (add_call els lid c). listener_id el = lid \<and> calls el \<noteq> [] \<and> last (calls el) = c"
  by (induction els) (auto simp: add_call_Nil add_call_Cons)

lemma execute_calls_append:
  "execute_calls (xs @ ys) e s =
     (case execute_calls xs e s of Inl err \<Rightarrow> Inl err | Inr s' \<Rightarrow> execute_calls ys e s')"
  by (induction xs arbitrary: s) (auto split: sum.splits)

lemma visit_listeners_append:
  "visit_listeners (xs @ ys) e s =
     (case visit_listeners xs e s of Inl err \<Rightarrow> Inl err | Inr s' \<Rightarrow> visit_listeners ys e s')"
  by (induction xs arbitrary: s) (auto split: sum.splits)

lemma execute_empty: "execute \<lparr>event_type = t, cb = None\<rparr> e s = Inr s"
  by (cases s) (simp add: execute_def)

lemma execute_calls_skip:
  "execute_calls (cs1 @ \<lparr>event_type = t, cb = None\<rparr> # cs2) e s = execute_calls (cs1 @ cs2) e s"
  by (simp add: execute_calls_append execute_empty split: sum.splits)

lemma ex_gap_groups:
  "m_listeners ex_gap =
     [0 \<mapsto> [\<lparr>listener_id = 1, calls = [\<lparr>event_type = 0, cb = Some ex_relay\<rparr>,
           \<lparr>event_type = 0, cb = None\<rparr>, \<lparr>event_type = 0, cb = Some ex_sink\<rparr>]\<rparr>]]"
  by (simp add: ex_gap_def reg_run_def addListener_def add_call_def EventBus_init_def)

text \<open>The methods of a \<^verbatim>\<open>Listener\<close> that holds a bus are these calls on that bus.\<close>

lemma listen_reg_step:
  "m_bus l = Some p \<Longrightarrow>
   listen l eid callback h = h(p := reg_step (Listen (m_listenerId l) eid callback) (h p))"
  by (simp add: listen_def)

lemma unlisten_reg_step:
  "m_bus l = Some p \<Longrightarrow> unlisten l eid h = h(p := reg_step (Unlisten (m_listenerId l) eid) (h p))"
  by (simp add: unlisten_def)

lemma unlistenAll_reg_step:
  "m_bus l = Some p \<Longrightarrow> unlistenAll l h = h(p := reg_step (UnlistenAll (m_listenerId l)) (h p))"
  by (simp add: unlistenAll_def)

lemma Listener_dtor_reg_step:
  "m_bus l = Some p \<Longrightarrow> Listener_dtor l h = h(p := reg_step (UnlistenAll (m_listenerId l)) (h p))"
  by (simp add: Listener_dtor_def unlistenAll_def)

text \<open>The methods of a \<^verbatim>\<open>Listener\<close> whose \<^verbatim>\<open>m_bus\<close> is null return at their guards.\<close>

lemma no_bus_methods_return:
  "m_bus l = None \<Longrightarrow>
   listen l eid callback h = h \<and> unlisten l eid h = h \<and> unlistenAll l h = h \<and>
   Listener_dtor l h = h"
  by (simp add: listen_def unlisten_def unlistenAll_def Listener_dtor_def)

text \<open>The constructor fails on a null pointer, and only there.\<close>

lemma Listener_ctor_null: "Listener_ctor None h = Inl null_dereference"
  by (simp add: Listener_ctor_def)

lemma Listener_ctor_bus:
  "Listener_ctor (Some p) h =
     Inr (\<lparr>m_listenerId = int_wrap (m_lastListenerId (h p) + 1), m_bus = Some p\<rparr>,
          h(p := (h p)\<lparr>m_lastListenerId := int_wrap (m_lastListenerId (h p) + 1)\<rparr>))"
  by (simp add: Listener_ctor_def getNewListenerId_def)

subsection \<open>Sequences of registrations\<close>

lemma add_call_match:
  "lid \<notin> listener_id ` set els1 \<Longrightarrow> listener_id g = lid \<Longrightarrow>
   add_call (els1 @ g # els2) lid c = els1 @ g\<lparr>calls := calls g @ [c]\<rparr> # els2"
  by (induction els1) (auto simp: add_call_Cons)

lemma foldl_add_call_match:
  "lid \<notin> listener_id ` set els1 \<Longrightarrow> listener_id g = lid \<Longrightarrow>
   foldl (\<lambda>els c. add_call els lid c) (els1 @ g # els2) cs =
     els1 @ g\<lparr>calls := calls g @ cs\<rparr> # els2"
proof (induction cs arbitrary: g)
  case Nil
  then show ?case by simp
next
  case (Cons c cs)
  from Cons.prems have "listener_id (g\<lparr>calls := calls g @ [c]\<rparr>) = lid" by simp
  from Cons.IH [OF Cons.prems(1) this] Cons.prems show ?case
    by (simp add: add_call_match)
qed

lemma foldl_add_call_split:
  "\<exists>els1 old els2.
     foldl (\<lambda>els c. add_call els lid c) els (c # cs) =
       els1 @ \<lparr>listener_id = lid, calls = old @ c # cs\<rparr> # els2 \<and>
     lid \<notin> listener_id ` set els1 \<and>
     (els = els1 @ \<lparr>listener_id = lid, calls = old\<rparr> # els2 \<or>
      els = els1 \<and> old = [] \<and> els2 = [])"
proof (cases "lid \<in> listener_id ` set els")
  case False
  then have "add_call els lid c = els @ \<lparr>listener_id = lid, calls = [c]\<rparr> # []"
    by (simp add: add_call_absent)
  with False have "foldl (\<lambda>els c. add_call els lid c) els (c # cs) =
      els @ \<lparr>listener_id = lid, calls = [] @ c # cs\<rparr> # []"
    using foldl_add_call_match [of lid els "\<lparr>listener_id = lid, calls = [c]\<rparr>" "[]" cs]
    by simp
  with False show ?thesis by blast
next
  case True
  then have "\<exists>g \<in> set els. listener_id g = lid" by auto
  then obtain els1 g els2 where
    els: "els = els1 @ g # els2" and g: "listener_id g = lid"
    and first: "\<forall>x \<in> set els1. listener_id x \<noteq> lid"
    by (auto dest!: split_list_first_prop)
  from first have fresh: "lid \<notin> listener_id ` set els1" by auto
  from g have geq: "g = \<lparr>listener_id = lid, calls = calls g\<rparr>" by (cases g) simp
  from g have "g\<lparr>calls := calls g @ c # cs\<rparr> = \<lparr>listener_id = lid, calls = calls g @ c # cs\<rparr>"
    by (cases g) simp
  with foldl_add_call_match [OF fresh g, of els2 "c # cs"] els
  have "foldl (\<lambda>els c. add_call els lid c) els (c # cs) =
      els1 @ \<lparr>listener_id = lid, calls = calls g @ c # cs\<rparr> # els2"
    by simp
  moreover from els geq have "els = els1 @ \<lparr>listener_id = lid, calls = calls g\<rparr> # els2"
    by simp
  ultimately show ?thesis using fresh by blast
qed

lemma reg_run_Nil: "reg_run [] b = b"
  by (simp add: reg_run_def)

lemma reg_run_Cons: "reg_run (c # cs) b = reg_run cs (reg_step c b)"
  by (simp add: reg_run_def)

lemma reg_run_snoc: "reg_run (cs @ [c]) b = reg_step c (reg_run cs b)"
  by (simp add: reg_run_def)

lemma groups_reg_run_listen:
  "groups (m_listeners (reg_run (map (\<lambda>f. Listen lid eid f) fs) b)) eid =
     foldl (\<lambda>els c. add_call els lid c) (groups (m_listeners b) eid)
       (map (\<lambda>f. \<lparr>event_type = eid, cb = f\<rparr>) fs)"
  by (induction fs arbitrary: b) (simp_all add: reg_run_Nil reg_run_Cons groups_addListener)

lemma typed_reg_run:
  "typed_registry (m_listeners b) \<Longrightarrow> typed_registry (m_listeners (reg_run cs b))"
  by (induction cs arbitrary: b) (simp_all add: reg_run_Nil reg_run_Cons typed_reg_step)

lemma immediate_result:
  assumes "typed_registry (m_listeners b)"
  shows "\<exists>b' w'. immediate e (b, w, tr) =
           Inr (b', w', tr @ invocations (groups (m_listeners b) (any_type e)) e)"
proof -
  have "\<not> isl (immediate e (b, w, tr))"
    unfolding immediate_def using assms by (simp add: immediate_id_total)
  then obtain s' where 1: "immediate e (b, w, tr) = Inr s'"
    by (cases "immediate e (b, w, tr)") auto
  obtain b' w' tr' where s': "s' = (b', w', tr')" by (cases s') auto
  from immediate_Inr [OF 1 [unfolded s']] 1 s' show ?thesis by simp
qed

lemma invocations_append: "invocations (xs @ ys) e = invocations xs e @ invocations ys e"
  by (simp add: invocations_def)

lemma invocations_group:
  "invocations (\<lparr>listener_id = lid, calls = old @ map (\<lambda>f. \<lparr>event_type = eid, cb = Some f\<rparr>) fs\<rparr> # els) e =
     invocations [\<lparr>listener_id = lid, calls = old\<rparr>] e @
     map (\<lambda>f. (\<lparr>event_type = eid, cb = Some f\<rparr>, e)) fs @ invocations els e"
  by (simp add: invocations_def filter_map comp_def)

subsection \<open>The registry as the list of registrations in force\<close>

lemma first_occ_snoc:
  "first_occ (xs @ [x]) = (if x \<in> set xs then first_occ xs else first_occ xs @ [x])"
  by (simp add: first_occ_def)

lemma first_occ_filter: "first_occ (filter P xs) = filter P (first_occ xs)"
  by (simp add: first_occ_def rev_filter remdups_filter)

lemma set_first_occ: "set (first_occ xs) = set xs"
  by (simp add: first_occ_def)

lemma distinct_first_occ: "distinct (first_occ xs)"
  by (simp add: first_occ_def)

lemma listener_id_groups_of: "map listener_id (groups_of regs eid) = subscribers regs eid"
  by (simp add: groups_of_def comp_def)

lemma subscribers_snoc:
  "subscribers (regs @ [(eid, lid, c)]) eid' =
     (if eid' = eid \<and> lid \<notin> set (subscribers regs eid) then subscribers regs eid' @ [lid]
      else subscribers regs eid')"
  by (auto simp: subscribers_def first_occ_snoc set_first_occ)

lemma callbacks_of_snoc:
  "callbacks_of (regs @ [(eid, lid, c)]) eid' l =
     (if eid' = eid \<and> l = lid then callbacks_of regs eid' l @ [c] else callbacks_of regs eid' l)"
  by (auto simp: callbacks_of_def)

lemma callbacks_of_fresh:
  "lid \<notin> set (subscribers regs eid) \<Longrightarrow> callbacks_of regs eid lid = []"
  by (auto simp: callbacks_of_def subscribers_def set_first_occ filter_empty_conv)

lemma groups_of_snoc_other:
  "eid' \<noteq> eid \<Longrightarrow> groups_of (regs @ [(eid, lid, c)]) eid' = groups_of regs eid'"
  by (simp add: groups_of_def subscribers_snoc callbacks_of_snoc)

lemma groups_of_snoc:
  "groups_of (regs @ [(eid, lid, c)]) eid = add_call (groups_of regs eid) lid c"
proof (cases "lid \<in> set (subscribers regs eid)")
  case True
  then have in_ids: "lid \<in> listener_id ` set (groups_of regs eid)"
    using listener_id_groups_of [of regs eid] by (metis set_map)
  have dist: "distinct (map listener_id (groups_of regs eid))"
    by (simp add: listener_id_groups_of subscribers_def distinct_first_occ)
  from True show ?thesis
    unfolding add_call_present [OF dist in_ids]
    by (simp add: groups_of_def subscribers_snoc callbacks_of_snoc)
next
  case False
  then have "lid \<notin> listener_id ` set (groups_of regs eid)"
    using listener_id_groups_of [of regs eid] by (metis set_map)
  from add_call_absent [OF this] False show ?thesis
    by (auto simp: groups_of_def subscribers_snoc callbacks_of_snoc callbacks_of_fresh)
qed

lemma groups_of_filter:
  "groups_of (filter (\<lambda>r. Q (fst r) (fst (snd r))) regs) eid =
     filter (\<lambda>el. Q eid (listener_id el)) (groups_of regs eid)"
proof -
  have sub: "subscribers (filter (\<lambda>r. Q (fst r) (fst (snd r))) regs) eid =
      filter (Q eid) (subscribers regs eid)"
  proof -
    have "map (\<lambda>r. fst (snd r)) (filter (\<lambda>r. fst r = eid) (filter (\<lambda>r. Q (fst r) (fst (snd r))) regs)) =
        filter (Q eid) (map (\<lambda>r. fst (snd r)) (filter (\<lambda>r. fst r = eid) regs))"
      by (induction regs) auto
    then show ?thesis by (simp add: subscribers_def first_occ_filter)
  qed
  have cbs: "callbacks_of (filter (\<lambda>r. Q (fst r) (fst (snd r))) regs) eid l = callbacks_of regs eid l"
    if "Q eid l" for l
    using that by (induction regs) (auto simp: callbacks_of_def)
  show ?thesis
    unfolding groups_of_def sub
    by (induction "subscribers regs eid") (auto simp: filter_map comp_def cbs intro!: map_cong)
qed

lemma groups_registry_of: "groups (registry_of regs) eid = groups_of regs eid"
  by (simp add: groups_def registry_of_def)

lemma registry_of_listen:
  assumes "m_listeners b = registry_of regs"
  shows "m_listeners (addListener eid lid c b) = registry_of (regs @ [(eid, lid, c)])"
proof (rule ext)
  fix eid'
  show "m_listeners (addListener eid lid c b) eid' = registry_of (regs @ [(eid, lid, c)]) eid'"
  proof (cases "eid' = eid")
    case True
    have "m_listeners (addListener eid lid c b) eid = Some (add_call (groups_of regs eid) lid c)"
      using assms by (simp add: addListener_key groups_registry_of)
    moreover have "registry_of (regs @ [(eid, lid, c)]) eid = Some (add_call (groups_of regs eid) lid c)"
      by (simp add: registry_of_def groups_of_snoc add_call_not_Nil)
    ultimately show ?thesis
      using True by simp
  next
    case False
    then show ?thesis
      using assms by (simp add: addListener_other registry_of_def groups_of_snoc_other)
  qed
qed

lemma registry_of_unlisten:
  assumes "m_listeners b = registry_of regs"
  shows "m_listeners (removeListener eid lid b) =
           registry_of (filter (\<lambda>r. \<not> (fst r = eid \<and> fst (snd r) = lid)) regs)"
proof (rule ext)
  fix eid'
  have f: "groups_of (filter (\<lambda>r. \<not> (fst r = eid \<and> fst (snd r) = lid)) regs) eid' =
      filter (\<lambda>el. \<not> (eid' = eid \<and> listener_id el = lid)) (groups_of regs eid')"
    by (rule groups_of_filter [of "\<lambda>i l. \<not> (i = eid \<and> l = lid)"])
  show "m_listeners (removeListener eid lid b) eid' =
      registry_of (filter (\<lambda>r. \<not> (fst r = eid \<and> fst (snd r) = lid)) regs) eid'"
  proof (cases "eid' = eid")
    case True
    with f assms show ?thesis
      by (simp add: removeListener_def registry_of_def erase_if_filter Let_def)
  next
    case False
    with f assms show ?thesis
      by (simp add: removeListener_other registry_of_def)
  qed
qed

lemma registry_of_unlistenAll:
  assumes "m_listeners b = registry_of regs"
  shows "m_listeners (removeListener_all lid b) =
           registry_of (filter (\<lambda>r. fst (snd r) \<noteq> lid) regs)"
proof (rule ext)
  fix eid
  have f: "groups_of (filter (\<lambda>r. fst (snd r) \<noteq> lid) regs) eid =
      filter (\<lambda>el. listener_id el \<noteq> lid) (groups_of regs eid)"
    by (rule groups_of_filter [of "\<lambda>i l. l \<noteq> lid"])
  with assms show "m_listeners (removeListener_all lid b) eid =
      registry_of (filter (\<lambda>r. fst (snd r) \<noteq> lid) regs) eid"
    by (simp add: removeListener_all_def registry_of_def erase_if_filter Let_def)
qed

lemma registry_of_reg_step:
  "m_listeners b = registry_of regs \<Longrightarrow> m_listeners (reg_step c b) = registry_of (live_step regs c)"
  by (cases c) (simp_all add: registry_of_listen registry_of_unlisten registry_of_unlistenAll)

lemma live_snoc: "live (cs @ [c]) = live_step (live cs) c"
  by (simp add: live_def)

lemma registry_of_reg_run:
  "m_listeners (reg_run cs EventBus_init) = registry_of (live cs)"
proof (induction cs rule: rev_induct)
  case Nil
  show ?case
    by (simp add: reg_run_Nil live_def EventBus_init_def registry_of_def groups_of_def
        subscribers_def first_occ_def)
next
  case (snoc c cs)
  then show ?case by (simp add: reg_run_snoc live_snoc registry_of_reg_step)
qed

lemma typed_init: "typed_registry (m_listeners EventBus_init)"
  by (simp add: EventBus_init_def typed_registry_def)

lemma live_ex_history:
  "live ex_history =
     [(0, 1, \<lparr>event_type = 0, cb = Some ex_sink\<rparr>), (0, 2, \<lparr>event_type = 0, cb = Some ex_echo\<rparr>),
      (0, 1, \<lparr>event_type = 0, cb = Some ex_relay\<rparr>)]"
  by (simp add: live_def ex_history_def)

lemma subscribers_ex_history: "subscribers (live ex_history) 0 = [1, 2]"
  by (simp add: live_ex_history subscribers_def first_occ_def)

lemma callbacks_ex_history:
  "callbacks_of (live ex_history) 0 1 = [\<lparr>event_type = 0, cb = Some ex_sink\<rparr>, \<lparr>event_type = 0, cb = Some ex_relay\<rparr>]"
  "callbacks_of (live ex_history) 0 2 = [\<lparr>event_type = 0, cb = Some ex_echo\<rparr>]"
  by (simp_all add: live_ex_history callbacks_of_def)

lemma ex_history_run:
  "immediate (Any 0 5) (reg_run ex_history EventBus_init, [], []) =
      Inr (post (Any 1 5) (reg_run ex_history EventBus_init), [''sink'', ''relay'', ''echo''],
           [(\<lparr>event_type = 0, cb = Some ex_sink\<rparr>, Any 0 5),
            (\<lparr>event_type = 0, cb = Some ex_relay\<rparr>, Any 0 5),
            (\<lparr>event_type = 0, cb = Some ex_echo\<rparr>, Any 0 5)])"
  by (simp add: immediate_def immediate_id_def ex_history_def reg_run_def addListener_def
      removeListener_def add_call_def EventBus_init_def execute_def post_def
      ex_sink_def ex_relay_def ex_echo_def)

lemma typed_ex_shared: "typed_registry (m_listeners ex_shared)"
  by (auto simp: typed_registry_def ex_shared_def split: if_splits)

subsection \<open>Dispatch as a sequence of invocations\<close>

lemma execute_invoke:
  "cb c = None \<or> event_type c = any_type e \<Longrightarrow> execute c e s = Inr (invoke c e s)"
  by (cases s) (auto simp: execute_def invoke_def split: option.splits prod.splits)

lemma invoke_all_Nil: "invoke_all [] e s = s"
  by (simp add: invoke_all_def)

lemma invoke_all_Cons: "invoke_all (c # cs) e s = invoke_all cs e (invoke c e s)"
  by (simp add: invoke_all_def)

lemma invoke_all_append: "invoke_all (xs @ ys) e s = invoke_all ys e (invoke_all xs e s)"
  by (simp add: invoke_all_def)

lemma invoke_empty: "cb c = None \<Longrightarrow> invoke c e s = s"
  by (cases s) (simp add: invoke_def)

lemma invoke_all_filter:
  "invoke_all (filter (\<lambda>c. cb c \<noteq> None) cs) e s = invoke_all cs e s"
  by (induction cs arbitrary: s) (auto simp: invoke_all_Nil invoke_all_Cons invoke_empty)

lemma execute_calls_invoke:
  "\<forall>c \<in> set cs. cb c = None \<or> event_type c = any_type e \<Longrightarrow>
   execute_calls cs e s = Inr (invoke_all cs e s)"
  by (induction cs arbitrary: s) (simp_all add: invoke_all_Nil invoke_all_Cons execute_invoke)

lemma visit_listeners_invoke:
  "\<forall>el \<in> set els. \<forall>c \<in> set (calls el). cb c = None \<or> event_type c = any_type e \<Longrightarrow>
   visit_listeners els e s = Inr (invoke_all (concat (map calls els)) e s)"
  by (induction els arbitrary: s)
     (simp_all add: invoke_all_Nil invoke_all_append execute_calls_invoke)

lemma immediate_invoke:
  assumes "typed_registry (m_listeners b)"
  shows "immediate e (b, w, tr) =
           Inr (invoke_all (concat (map calls (groups (m_listeners b) (any_type e)))) e (b, w, tr))"
proof (cases "m_listeners b (any_type e)")
  case None
  then show ?thesis
    by (simp add: immediate_def immediate_id_def groups_def invoke_all_Nil)
next
  case (Some els)
  with assms have "\<forall>el \<in> set els. \<forall>c \<in> set (calls el). cb c = None \<or> event_type c = any_type e"
    by (auto simp: typed_registry_def)
  from visit_listeners_invoke [OF this] Some show ?thesis
    by (simp add: immediate_def immediate_id_def groups_def)
qed

lemma invoke_all_log:
  "snd (snd (invoke_all cs e (b, w, tr))) = tr @ map (\<lambda>c. (c, e)) (filter (\<lambda>c. cb c \<noteq> None) cs)"
proof (induction cs arbitrary: b w tr)
  case Nil
  show ?case by (simp add: invoke_all_Nil)
next
  case (Cons c cs)
  obtain b1 w1 tr1 where 1: "invoke c e (b, w, tr) = (b1, w1, tr1)"
    by (cases "invoke c e (b, w, tr)") auto
  then have "tr1 = tr @ map (\<lambda>c. (c, e)) (filter (\<lambda>c. cb c \<noteq> None) [c])"
    by (auto simp: invoke_def split: option.splits prod.splits)
  with Cons [of b1 w1 tr1] 1 show ?case
    by (simp add: invoke_all_Cons)
qed

subsection \<open>Flushes that run to the end\<close>

text \<open>
  Where no callback posts, the queued events are dispatched first in first out, each as
  \<^verbatim>\<open>immediate\<close> would, and the queue is empty afterwards.
\<close>

lemma process_ex_fifo:
  "process (ex_fifo, [], []) =
     Inr (ex_fifo\<lparr>m_postpondedEvents := []\<rparr>, [''echo'', ''sink'', ''echo''],
          [(\<lparr>event_type = 0, cb = Some ex_echo\<rparr>, Any 0 1),
           (\<lparr>event_type = 1, cb = Some ex_sink\<rparr>, Any 1 2),
           (\<lparr>event_type = 0, cb = Some ex_echo\<rparr>, Any 0 3)]) \<and>
   spec_flush (ex_fifo, [], []) = process (ex_fifo, [], [])"
  by (simp add: process_def spec_flush_def immediate_def immediate_id_def execute_def
      ex_fifo_def ex_echo_def ex_sink_def numeral_3_eq_3)

text \<open>
  Where the vector has room, the posts of the callbacks go in place: the loop goes over
  the two entries queued at the start, and \<^verbatim>\<open>clear()\<close> drops the two relayed events.
\<close>

lemma process_ex_roomy:
  "process (ex_roomy, [], []) =
     Inr (ex_roomy\<lparr>m_postpondedEvents := []\<rparr>, [''relay'', ''relay''],
          [(\<lparr>event_type = 0, cb = Some ex_relay\<rparr>, Any 0 5),
           (\<lparr>event_type = 0, cb = Some ex_relay\<rparr>, Any 0 6)])"
  by (simp add: process_def immediate_id_def execute_def post_def
      ex_roomy_def ex_bus_def ex_relay_def numeral_2_eq_2)

text \<open>The buses of the two failing flushes are reached through the public interface.\<close>

lemma ex_bus_built:
  "ex_bus =
     post (Any 0 5)
       (reg_step (Listen 2 1 (Some ex_sink))
         (reg_step (Listen 1 0 (Some ex_relay))
           (snd (getNewListenerId (snd (getNewListenerId EventBus_init))))))"
  by (simp add: ex_bus_def post_def vector_grow_def addListener_def add_call_def
      getNewListenerId_def int_wrap_def EventBus_init_def)

lemma reachable_ex_bus: "reachable (ex_bus, w, [])"
  unfolding ex_bus_built by (intro r_post r_register r_new_listener r_init)

lemma reachable_ex_bus_posted: "reachable (post (Any 0 6) ex_bus, w, [])"
  by (intro r_post reachable_ex_bus)

section \<open>The claims\<close>

text \<open>
  C1: events that a callback enqueues during \<^verbatim>\<open>process\<close> are not dispatched by that call
  but stay in the queue, so that the next call dispatches them. The code does not keep
  them. On \<open>ex_bus\<close> the one queued event of type 0 runs the relay callback, which posts
  an event of type 1 (the vector grows from capacity 1 to 2); the loop is over, \<^verbatim>\<open>clear()\<close>
  empties the queue, posted event included, and the next \<^verbatim>\<open>process\<close> invokes nobody,
  although listener 2 listens to type 1.
\<close>

theorem C1_posted_event_discarded:
  "process (ex_bus, [], []) =
     Inr (ex_bus\<lparr>m_postpondedEvents := [], m_postpondedEvents_capacity := 2\<rparr>, [''relay''],
          [(\<lparr>event_type = 0, cb = Some ex_relay\<rparr>, Any 0 5)]) \<and>
   ex_relay 5 [] = ([''relay''], [Any 1 5]) \<and>
   process (ex_bus\<lparr>m_postpondedEvents := [], m_postpondedEvents_capacity := 2\<rparr>, [''relay''],
            [(\<lparr>event_type = 0, cb = Some ex_relay\<rparr>, Any 0 5)]) =
     Inr (ex_bus\<lparr>m_postpondedEvents := [], m_postpondedEvents_capacity := 2\<rparr>, [''relay''],
          [(\<lparr>event_type = 0, cb = Some ex_relay\<rparr>, Any 0 5)])"
  by (simp add: process_def immediate_id_def execute_def post_def vector_grow_def
      ex_bus_def ex_relay_def)

text \<open>
  C2: let the registry be the one that a history of \<^verbatim>\<open>listen\<close>, \<^verbatim>\<open>unlisten\<close> and
  \<^verbatim>\<open>unlistenAll\<close> calls builds on a new bus. Then the groups under a key are those of
  the listeners with a registration in force for it, in the order of their first such
  registration, each holding that listener's callbacks for the key in the order of
  registration; and \<^verbatim>\<open>immediate\<close> of an event of that type returns the state that
  invoking every callback once makes, group after group in that order and call after
  call inside a group: the world each function leaves is the world the next one finds,
  the events they post are queued in that order, and the log grows by these
  invocations. (An entry whose function is empty has nothing to invoke: see C10.)
\<close>

theorem C2_dispatch_order:
  assumes "m_listeners b = m_listeners (reg_run cs EventBus_init)"
  shows "groups (m_listeners b) eid =
           map (\<lambda>l. \<lparr>listener_id = l, calls = callbacks_of (live cs) eid l\<rparr>)
             (subscribers (live cs) eid) \<and>
         immediate (Any eid v) (b, w, tr) =
           Inr (invoke_all
                  (concat (map (\<lambda>l. filter (\<lambda>c. cb c \<noteq> None) (callbacks_of (live cs) eid l))
                             (subscribers (live cs) eid)))
                  (Any eid v) (b, w, tr)) \<and>
         snd (snd (invoke_all
                  (concat (map (\<lambda>l. filter (\<lambda>c. cb c \<noteq> None) (callbacks_of (live cs) eid l))
                             (subscribers (live cs) eid)))
                  (Any eid v) (b, w, tr))) =
           tr @ concat (map (\<lambda>l. map (\<lambda>c. (c, Any eid v))
                                   (filter (\<lambda>c. cb c \<noteq> None) (callbacks_of (live cs) eid l)))
                          (subscribers (live cs) eid))"
proof (intro conjI)
  let ?called = "concat (map (\<lambda>l. filter (\<lambda>c. cb c \<noteq> None) (callbacks_of (live cs) eid l))
                             (subscribers (live cs) eid))"
  from assms have g: "groups (m_listeners b) eid = groups_of (live cs) eid"
    by (simp add: registry_of_reg_run groups_registry_of)
  then show "groups (m_listeners b) eid =
           map (\<lambda>l. \<lparr>listener_id = l, calls = callbacks_of (live cs) eid l\<rparr>)
             (subscribers (live cs) eid)"
    by (simp add: groups_of_def)
  have called: "filter (\<lambda>c. cb c \<noteq> None) (concat (map calls (groups_of (live cs) eid))) = ?called"
    by (simp add: groups_of_def filter_concat comp_def)
  have "typed_registry (m_listeners b)"
    unfolding assms by (rule typed_reg_run [OF typed_init])
  from immediate_invoke [OF this, of "Any eid v" w tr] g
  have "immediate (Any eid v) (b, w, tr) =
      Inr (invoke_all (concat (map calls (groups_of (live cs) eid))) (Any eid v) (b, w, tr))"
    by simp
  also have "invoke_all (concat (map calls (groups_of (live cs) eid))) (Any eid v) (b, w, tr) =
      invoke_all ?called (Any eid v) (b, w, tr)"
    unfolding called [symmetric] by (rule invoke_all_filter [symmetric])
  finally show "immediate (Any eid v) (b, w, tr) = Inr (invoke_all ?called (Any eid v) (b, w, tr))" .
  have "filter (\<lambda>c. cb c \<noteq> None) ?called = ?called"
    by (simp add: filter_concat comp_def)
  with invoke_all_log [of ?called "Any eid v" b w tr]
  show "snd (snd (invoke_all ?called (Any eid v) (b, w, tr))) =
           tr @ concat (map (\<lambda>l. map (\<lambda>c. (c, Any eid v))
                                   (filter (\<lambda>c. cb c \<noteq> None) (callbacks_of (live cs) eid l)))
                          (subscribers (live cs) eid))"
    by (simp add: map_concat comp_def)
qed

theorem C2_witness:
  "m_listeners (reg_run ex_history EventBus_init) = m_listeners (reg_run ex_history EventBus_init) \<and>
   subscribers (live ex_history) 0 = [1, 2] \<and>
   groups (m_listeners (reg_run ex_history EventBus_init)) 0 =
     [\<lparr>listener_id = 1, calls = [\<lparr>event_type = 0, cb = Some ex_sink\<rparr>, \<lparr>event_type = 0, cb = Some ex_relay\<rparr>]\<rparr>,
      \<lparr>listener_id = 2, calls = [\<lparr>event_type = 0, cb = Some ex_echo\<rparr>]\<rparr>] \<and>
   immediate (Any 0 5) (reg_run ex_history EventBus_init, [''start''], []) =
     Inr (post (Any 1 5) (reg_run ex_history EventBus_init), [''start'', ''sink'', ''relay'', ''echo''],
          [(\<lparr>event_type = 0, cb = Some ex_sink\<rparr>, Any 0 5),
           (\<lparr>event_type = 0, cb = Some ex_relay\<rparr>, Any 0 5),
           (\<lparr>event_type = 0, cb = Some ex_echo\<rparr>, Any 0 5)])"
proof -
  note t = C2_dispatch_order [OF refl, of ex_history 0 5 "[''start'']" "[]"]
  from t [THEN conjunct1] have 1: "groups (m_listeners (reg_run ex_history EventBus_init)) 0 =
     [\<lparr>listener_id = 1, calls = [\<lparr>event_type = 0, cb = Some ex_sink\<rparr>, \<lparr>event_type = 0, cb = Some ex_relay\<rparr>]\<rparr>,
      \<lparr>listener_id = 2, calls = [\<lparr>event_type = 0, cb = Some ex_echo\<rparr>]\<rparr>]"
    by (simp add: subscribers_ex_history callbacks_ex_history)
  from t [THEN conjunct2, THEN conjunct1] have 2:
    "immediate (Any 0 5) (reg_run ex_history EventBus_init, [''start''], []) =
     Inr (post (Any 1 5) (reg_run ex_history EventBus_init), [''start'', ''sink'', ''relay'', ''echo''],
          [(\<lparr>event_type = 0, cb = Some ex_sink\<rparr>, Any 0 5),
           (\<lparr>event_type = 0, cb = Some ex_relay\<rparr>, Any 0 5),
           (\<lparr>event_type = 0, cb = Some ex_echo\<rparr>, Any 0 5)])"
    by (simp add: subscribers_ex_history callbacks_ex_history invoke_all_def invoke_def
        ex_sink_def ex_relay_def ex_echo_def)
  show ?thesis by (intro conjI refl subscribers_ex_history 1 2)
qed

text \<open>
  C3: \<^verbatim>\<open>process\<close> dispatches the queued events first in first out, each as \<^verbatim>\<open>immediate\<close>
  of that event would, and then empties the queue: what \<open>spec_flush\<close> does. The code
  fails it where a callback posts while entries are left. On \<open>ex_bus\<close> with a second
  event of type 0 posted, the relay callback runs for the first entry and its \<^verbatim>\<open>post\<close>
  reallocates the full vector under the running loop: the call ends on an invalidated
  iterator, the second entry is not dispatched and the queue is not cleared, where the
  flush of the specification relays both events and returns with an empty queue.
\<close>

theorem C3_process_invalidated_iterator:
  "process (post (Any 0 6) ex_bus, [], []) = Inl invalidated_iterator \<and>
   spec_flush (post (Any 0 6) ex_bus, [], []) =
     Inr ((post (Any 0 6) ex_bus)\<lparr>m_postpondedEvents := [], m_postpondedEvents_capacity := 4\<rparr>,
          [''relay'', ''relay''],
          [(\<lparr>event_type = 0, cb = Some ex_relay\<rparr>, Any 0 5),
           (\<lparr>event_type = 0, cb = Some ex_relay\<rparr>, Any 0 6)])"
  by (simp add: process_def spec_flush_def immediate_def immediate_id_def execute_def post_def
      vector_grow_def ex_bus_def ex_relay_def)

text \<open>
  C4: \<^verbatim>\<open>listen\<close> has no failure case, and after a listener has registered the callbacks
  \<open>f # fs\<close> for one event type, its group under that key ends with exactly these entries
  in the order of registration, behind whatever the listener had registered there
  before (\<open>old\<close>); the group is the new last one when the listener had none, and stays
  where it was otherwise. One \<^verbatim>\<open>immediate\<close> of an event of that type invokes all of
  them, in that order, between the invocations of the groups before and after.
\<close>

theorem C4_registrations_all_kept:
  assumes "typed_registry (m_listeners b)"
  shows "\<exists>els1 old els2.
     groups (m_listeners (reg_run (map (\<lambda>f. Listen lid eid (Some f)) (f # fs)) b)) eid =
       els1 @ \<lparr>listener_id = lid,
                calls = old @ map (\<lambda>f. \<lparr>event_type = eid, cb = Some f\<rparr>) (f # fs)\<rparr> # els2 \<and>
     lid \<notin> listener_id ` set els1 \<and>
     (groups (m_listeners b) eid = els1 @ \<lparr>listener_id = lid, calls = old\<rparr> # els2 \<or>
      groups (m_listeners b) eid = els1 \<and> old = [] \<and> els2 = []) \<and>
     (\<exists>b' w'.
        immediate (Any eid v) (reg_run (map (\<lambda>f. Listen lid eid (Some f)) (f # fs)) b, w, tr) =
          Inr (b', w',
               tr @ invocations (els1 @ [\<lparr>listener_id = lid, calls = old\<rparr>]) (Any eid v) @
               map (\<lambda>f. (\<lparr>event_type = eid, cb = Some f\<rparr>, Any eid v)) (f # fs) @
               invocations els2 (Any eid v)))"
proof -
  let ?b = "reg_run (map (\<lambda>f. Listen lid eid (Some f)) (f # fs)) b"
  let ?cs = "map (\<lambda>f. \<lparr>event_type = eid, cb = Some f\<rparr>) (f # fs)"
  have run: "?b = reg_run (map (\<lambda>f. Listen lid eid f) (map Some (f # fs))) b"
    by (simp add: comp_def)
  have g: "groups (m_listeners ?b) eid =
      foldl (\<lambda>els c. add_call els lid c) (groups (m_listeners b) eid) ?cs"
    unfolding run groups_reg_run_listen by (simp add: comp_def)
  from foldl_add_call_split [of lid "groups (m_listeners b) eid" "\<lparr>event_type = eid, cb = Some f\<rparr>"
      "map (\<lambda>f. \<lparr>event_type = eid, cb = Some f\<rparr>) fs"]
  obtain els1 old els2 where
    1: "foldl (\<lambda>els c. add_call els lid c) (groups (m_listeners b) eid) ?cs =
        els1 @ \<lparr>listener_id = lid, calls = old @ ?cs\<rparr> # els2"
    and 2: "lid \<notin> listener_id ` set els1"
    and 3: "groups (m_listeners b) eid = els1 @ \<lparr>listener_id = lid, calls = old\<rparr> # els2 \<or>
      groups (m_listeners b) eid = els1 \<and> old = [] \<and> els2 = []"
    by auto
  from g 1 have 4: "groups (m_listeners ?b) eid = els1 @ \<lparr>listener_id = lid, calls = old @ ?cs\<rparr> # els2"
    by simp
  have "typed_registry (m_listeners ?b)"
    using assms by (rule typed_reg_run)
  from immediate_result [OF this, of "Any eid v" w tr] obtain b' w' where
    "immediate (Any eid v) (?b, w, tr) =
       Inr (b', w', tr @ invocations (groups (m_listeners ?b) eid) (Any eid v))"
    by auto
  with 4 have 5: "immediate (Any eid v) (?b, w, tr) =
       Inr (b', w', tr @ invocations (els1 @ [\<lparr>listener_id = lid, calls = old\<rparr>]) (Any eid v) @
               map (\<lambda>f. (\<lparr>event_type = eid, cb = Some f\<rparr>, Any eid v)) (f # fs) @
               invocations els2 (Any eid v))"
    using invocations_group [of lid old eid "f # fs" els2 "Any eid v"]
    by (simp add: invocations_append)
  from 2 3 4 5 show ?thesis by blast
qed

theorem C4_witness:
  "typed_registry (m_listeners ex_shared) \<and>
   groups (m_listeners (reg_run (map (\<lambda>f. Listen 3 0 (Some f)) [ex_echo, ex_echo]) ex_shared)) 0 =
     [\<lparr>listener_id = 1, calls = [\<lparr>event_type = 0, cb = Some ex_relay\<rparr>]\<rparr>,
      \<lparr>listener_id = 2, calls = [\<lparr>event_type = 0, cb = Some ex_sink\<rparr>]\<rparr>,
      \<lparr>listener_id = 3, calls = [\<lparr>event_type = 0, cb = Some ex_echo\<rparr>, \<lparr>event_type = 0, cb = Some ex_echo\<rparr>]\<rparr>] \<and>
   immediate (Any 0 5) (reg_run (map (\<lambda>f. Listen 3 0 (Some f)) [ex_echo, ex_echo]) ex_shared, [], []) =
     Inr (post (Any 1 5) (reg_run (map (\<lambda>f. Listen 3 0 (Some f)) [ex_echo, ex_echo]) ex_shared),
          [''relay'', ''sink'', ''echo'', ''echo''],
          [(\<lparr>event_type = 0, cb = Some ex_relay\<rparr>, Any 0 5),
           (\<lparr>event_type = 0, cb = Some ex_sink\<rparr>, Any 0 5),
           (\<lparr>event_type = 0, cb = Some ex_echo\<rparr>, Any 0 5),
           (\<lparr>event_type = 0, cb = Some ex_echo\<rparr>, Any 0 5)]) \<and>
   (\<exists>els1 old els2.
     groups (m_listeners (reg_run (map (\<lambda>f. Listen 3 0 (Some f)) [ex_echo, ex_echo]) ex_shared)) 0 =
       els1 @ \<lparr>listener_id = 3,
                calls = old @ map (\<lambda>f. \<lparr>event_type = 0, cb = Some f\<rparr>) [ex_echo, ex_echo]\<rparr> # els2 \<and>
     3 \<notin> listener_id ` set els1 \<and>
     (groups (m_listeners ex_shared) 0 = els1 @ \<lparr>listener_id = 3, calls = old\<rparr> # els2 \<or>
      groups (m_listeners ex_shared) 0 = els1 \<and> old = [] \<and> els2 = []) \<and>
     (\<exists>b' w'.
        immediate (Any 0 5) (reg_run (map (\<lambda>f. Listen 3 0 (Some f)) [ex_echo, ex_echo]) ex_shared, [], []) =
          Inr (b', w',
               [] @ invocations (els1 @ [\<lparr>listener_id = 3, calls = old\<rparr>]) (Any 0 5) @
               map (\<lambda>f. (\<lparr>event_type = 0, cb = Some f\<rparr>, Any 0 5)) [ex_echo, ex_echo] @
               invocations els2 (Any 0 5))))"
proof -
  have 1: "groups (m_listeners (reg_run (map (\<lambda>f. Listen 3 0 (Some f)) [ex_echo, ex_echo]) ex_shared)) 0 =
     [\<lparr>listener_id = 1, calls = [\<lparr>event_type = 0, cb = Some ex_relay\<rparr>]\<rparr>,
      \<lparr>listener_id = 2, calls = [\<lparr>event_type = 0, cb = Some ex_sink\<rparr>]\<rparr>,
      \<lparr>listener_id = 3, calls = [\<lparr>event_type = 0, cb = Some ex_echo\<rparr>, \<lparr>event_type = 0, cb = Some ex_echo\<rparr>]\<rparr>]"
    by (simp add: reg_run_def addListener_def add_call_def ex_shared_def groups_def)
  have 2: "immediate (Any 0 5) (reg_run (map (\<lambda>f. Listen 3 0 (Some f)) [ex_echo, ex_echo]) ex_shared, [], []) =
     Inr (post (Any 1 5) (reg_run (map (\<lambda>f. Listen 3 0 (Some f)) [ex_echo, ex_echo]) ex_shared),
          [''relay'', ''sink'', ''echo'', ''echo''],
          [(\<lparr>event_type = 0, cb = Some ex_relay\<rparr>, Any 0 5),
           (\<lparr>event_type = 0, cb = Some ex_sink\<rparr>, Any 0 5),
           (\<lparr>event_type = 0, cb = Some ex_echo\<rparr>, Any 0 5),
           (\<lparr>event_type = 0, cb = Some ex_echo\<rparr>, Any 0 5)])"
    by (simp add: immediate_def immediate_id_def reg_run_def addListener_def add_call_def
        ex_shared_def execute_def post_def ex_sink_def ex_relay_def ex_echo_def)
  show ?thesis
    by (intro conjI typed_ex_shared 1 2
        C4_registrations_all_kept [OF typed_ex_shared, of 3 0 ex_echo "[ex_echo]" 5 "[]" "[]"])
qed

text \<open>
  C5: on a well-formed registry \<^verbatim>\<open>removeListener(id, listener_id)\<close> takes the group of
  that listener out of the vector under that key, and there is at most one such group;
  the other groups under the key stay as they are and in their order, and so do the
  entries under every other key (the listener's groups for other event types among
  them), the listener counter and the queue. Without such a group the bus is unchanged.
  When no group is left under the key, the key is erased from the map.
\<close>

theorem C5_removeListener_frame:
  assumes "wf_registry (m_listeners b)"
  shows "groups (m_listeners (removeListener eid lid b)) eid =
           filter (\<lambda>el. listener_id el \<noteq> lid) (groups (m_listeners b) eid) \<and>
         length (filter (\<lambda>el. listener_id el = lid) (groups (m_listeners b) eid)) \<le> 1 \<and>
         (\<forall>eid'. eid' \<noteq> eid \<longrightarrow>
            m_listeners (removeListener eid lid b) eid' = m_listeners b eid') \<and>
         m_lastListenerId (removeListener eid lid b) = m_lastListenerId b \<and>
         m_postpondedEvents (removeListener eid lid b) = m_postpondedEvents b \<and>
         (lid \<notin> listener_id ` set (groups (m_listeners b) eid) \<longrightarrow> removeListener eid lid b = b) \<and>
         (groups (m_listeners (removeListener eid lid b)) eid = [] \<longrightarrow>
            m_listeners (removeListener eid lid b) eid = None)"
proof (intro conjI allI impI)
  show "groups (m_listeners (removeListener eid lid b)) eid =
           filter (\<lambda>el. listener_id el \<noteq> lid) (groups (m_listeners b) eid)"
    by (rule groups_removeListener)
  show "length (filter (\<lambda>el. listener_id el = lid) (groups (m_listeners b) eid)) \<le> 1"
    by (rule distinct_one_group [OF wf_groups [OF assms]])
  show "m_listeners (removeListener eid lid b) eid' = m_listeners b eid'" if "eid' \<noteq> eid" for eid'
    using that by (rule removeListener_other)
  show "m_lastListenerId (removeListener eid lid b) = m_lastListenerId b"
    by (simp add: removeListener_rest)
  show "m_postpondedEvents (removeListener eid lid b) = m_postpondedEvents b"
    by (simp add: removeListener_rest)
  show "removeListener eid lid b = b" if "lid \<notin> listener_id ` set (groups (m_listeners b) eid)"
    using assms that by (rule removeListener_absent)
  show "m_listeners (removeListener eid lid b) eid = None"
    if "groups (m_listeners (removeListener eid lid b)) eid = []"
    using that by (simp add: removeListener_key groups_removeListener)
qed


theorem C5_witness:
  "wf_registry (m_listeners ex_shared) \<and>
   groups (m_listeners (removeListener 0 1 ex_shared)) 0 =
     [\<lparr>listener_id = 2, calls = [\<lparr>event_type = 0, cb = Some ex_sink\<rparr>]\<rparr>] \<and>
   m_listeners (removeListener 0 1 ex_shared) 1 = m_listeners ex_shared 1 \<and>
   m_listeners ex_shared 1 = Some [\<lparr>listener_id = 1, calls = [\<lparr>event_type = 1, cb = Some ex_sink\<rparr>]\<rparr>] \<and>
   3 \<notin> listener_id ` set (groups (m_listeners ex_shared) 0) \<and>
   removeListener 0 3 ex_shared = ex_shared \<and>
   groups (m_listeners (removeListener 1 1 ex_shared)) 1 = [] \<and>
   m_listeners (removeListener 1 1 ex_shared) 1 = None"
proof -
  have 1: "filter (\<lambda>el. listener_id el \<noteq> 1) (groups (m_listeners ex_shared) 0) =
      [\<lparr>listener_id = 2, calls = [\<lparr>event_type = 0, cb = Some ex_sink\<rparr>]\<rparr>]"
    by (simp add: ex_shared_def groups_def)
  have 2: "m_listeners ex_shared 1 =
      Some [\<lparr>listener_id = 1, calls = [\<lparr>event_type = 1, cb = Some ex_sink\<rparr>]\<rparr>]"
    by (simp add: ex_shared_def)
  have 3: "3 \<notin> listener_id ` set (groups (m_listeners ex_shared) 0)"
    by (simp add: ex_shared_def groups_def)
  have 4: "filter (\<lambda>el. listener_id el \<noteq> 1) (groups (m_listeners ex_shared) 1) = []"
    by (simp add: ex_shared_def groups_def)
  from C5_removeListener_frame [OF wf_ex_shared, of 0 1]
       C5_removeListener_frame [OF wf_ex_shared, of 0 3]
       C5_removeListener_frame [OF wf_ex_shared, of 1 1] wf_ex_shared 1 2 3 4
  show ?thesis by simp
qed

text \<open>
  C6: \<^verbatim>\<open>removeListener(listener_id)\<close> applied twice gives the bus that one application
  gives. After it, under every key the groups are those of the other listeners, as they
  were and in their order; no group of that listener is left; no key holds an empty
  vector.
\<close>

theorem C6_removeListener_all_idempotent:
  "removeListener_all lid (removeListener_all lid b) = removeListener_all lid b \<and>
   (\<forall>eid. groups (m_listeners (removeListener_all lid b)) eid =
           filter (\<lambda>el. listener_id el \<noteq> lid) (groups (m_listeners b) eid)) \<and>
   (\<forall>eid. \<forall>el \<in> set (groups (m_listeners (removeListener_all lid b)) eid). listener_id el \<noteq> lid) \<and>
   (\<forall>eid. m_listeners (removeListener_all lid b) eid \<noteq> Some [])"
  by (simp add: removeListener_all_idem groups_removeListener_all removeListener_all_no_empty)

theorem C6_witness:
  "removeListener_all 1 (removeListener_all 1 ex_shared) = removeListener_all 1 ex_shared \<and>
   groups (m_listeners (removeListener_all 1 ex_shared)) 0 =
     [\<lparr>listener_id = 2, calls = [\<lparr>event_type = 0, cb = Some ex_sink\<rparr>]\<rparr>] \<and>
   map listener_id (groups (m_listeners (removeListener_all 1 ex_shared)) 0) = [2] \<and>
   m_listeners (removeListener_all 1 ex_shared) 1 = None"
proof -
  have 1: "filter (\<lambda>el. listener_id el \<noteq> 1) (groups (m_listeners ex_shared) 0) =
      [\<lparr>listener_id = 2, calls = [\<lparr>event_type = 0, cb = Some ex_sink\<rparr>]\<rparr>]"
    by (simp add: ex_shared_def groups_def)
  have 2: "m_listeners (removeListener_all 1 ex_shared) 1 = None"
    by (simp add: removeListener_all_def ex_shared_def)
  note t = C6_removeListener_all_idempotent [of 1 ex_shared]
  from t have a: "removeListener_all 1 (removeListener_all 1 ex_shared) = removeListener_all 1 ex_shared"
    by (rule conjunct1)
  from t have b: "groups (m_listeners (removeListener_all 1 ex_shared)) 0 =
      filter (\<lambda>el. listener_id el \<noteq> 1) (groups (m_listeners ex_shared) 0)"
    by blast
  from a b 1 2 show ?thesis by simp
qed

text \<open>
  C7: when the registry has no entry under the key of an event, \<^verbatim>\<open>immediate\<close> of that
  event returns without an error, invokes nobody and leaves the bus and the world as
  they are. When no queued entry has a key with a registry entry, \<^verbatim>\<open>process\<close> returns
  without an error, invokes nobody and leaves the world, the registry and the listener
  counter as they are; the queue is drained, as by every \<^verbatim>\<open>process\<close>.
\<close>

theorem C7_no_subscribers_noop:
  "(m_listeners b (any_type e) = None \<longrightarrow> immediate e (b, w, tr) = Inr (b, w, tr)) \<and>
   ((\<forall>pe \<in> set (m_postpondedEvents b). m_listeners b (id_pe pe) = None) \<longrightarrow>
      process (b, w, tr) = Inr (b\<lparr>m_postpondedEvents := []\<rparr>, w, tr))"
proof (intro conjI impI)
  assume "m_listeners b (any_type e) = None"
  then show "immediate e (b, w, tr) = Inr (b, w, tr)"
    by (simp add: immediate_def immediate_id_def)
next
  assume "\<forall>pe \<in> set (m_postpondedEvents b). m_listeners b (id_pe pe) = None"
  then have "\<forall>j. 0 \<le> j \<and> j < 0 + length (m_postpondedEvents b) \<longrightarrow>
      m_listeners b (id_pe (m_postpondedEvents b ! j)) = None"
    by simp
  from process_loop_no_entry [OF this] show
    "process (b, w, tr) = Inr (b\<lparr>m_postpondedEvents := []\<rparr>, w, tr)"
    by (simp add: process_def)
qed

theorem C7_witness:
  "m_listeners ex_idle (any_type (Any 7 (3::int))) = None \<and>
   immediate (Any 7 3) (ex_idle, [''w''], []) = Inr (ex_idle, [''w''], []) \<and>
   map (\<lambda>pe. m_listeners ex_idle (id_pe pe)) (m_postpondedEvents ex_idle) = [None, None] \<and>
   process (ex_idle, [''w''], []) = Inr (ex_idle\<lparr>m_postpondedEvents := []\<rparr>, [''w''], [])"
proof -
  have 1: "m_listeners ex_idle (any_type (Any 7 (3::int))) = None"
    by (simp add: ex_idle_def ex_bus_def)
  have 2: "map (\<lambda>pe. m_listeners ex_idle (id_pe pe)) (m_postpondedEvents ex_idle) = [None, None]"
    by (simp add: ex_idle_def ex_bus_def)
  have 3: "\<forall>pe \<in> set (m_postpondedEvents ex_idle). m_listeners ex_idle (id_pe pe) = None"
    by (simp add: ex_idle_def ex_bus_def)
  from 1 2 3 C7_no_subscribers_noop [of ex_idle "Any 7 3" "[''w'']" "[]"]
  show ?thesis by blast
qed

text \<open>
  C8: a \<^verbatim>\<open>Listener\<close> that holds no bus, never constructed with one, is safe to use. The
  code fails it in the constructor, the one place where such a handle could come
  from: it calls \<^verbatim>\<open>getNewListenerId\<close> through the pointer it is given without the test
  for null that \<^verbatim>\<open>listen\<close>, \<^verbatim>\<open>unlisten\<close> and \<^verbatim>\<open>unlistenAll\<close> make. Constructed with a
  null pointer it dereferences it; constructed with a bus it always returns a handle
  that holds that bus.
\<close>

theorem C8_constructor_null_dereference:
  "Listener_ctor None h = Inl null_dereference \<and>
   (\<forall>p. \<exists>l h'. Listener_ctor (Some p) h = Inr (l, h') \<and> m_bus l = Some p)"
  by (simp add: Listener_ctor_def getNewListenerId_def)

text \<open>
  C9: in every state that the interface reaches from a new bus, every key of the
  registry holds a non-empty vector of groups in which no listener id occurs twice.
\<close>

theorem C9_registry_wellformed:
  "reachable s \<Longrightarrow> wf_registry (m_listeners (fst s))"
proof (induction s rule: reachable.induct)
  case (r_init w)
  show ?case by (simp add: EventBus_init_def wf_registry_def)
next
  case (r_outside b w tr w')
  then show ?case by simp
next
  case (r_post b w tr e)
  then show ?case by (simp add: post_def)
next
  case (r_immediate s e s')
  obtain b w tr where s: "s = (b, w, tr)" by (cases s) auto
  obtain b' w' tr' where s': "s' = (b', w', tr')" by (cases s') auto
  from r_immediate.hyps(2) s s' have "same_but_queue b b'"
    by (auto dest: immediate_Inr)
  then have "m_listeners b' = m_listeners b" by (simp add: same_but_queue_fields)
  with r_immediate.IH s s' show ?case by simp
next
  case (r_process s s')
  obtain b w tr where s: "s = (b, w, tr)" by (cases s) auto
  obtain b' w' tr' where s': "s' = (b', w', tr')" by (cases s') auto
  from r_process.hyps(2) s s' have "m_listeners b' = m_listeners b"
    by (auto dest: process_Inr)
  with r_process.IH s s' show ?case by simp
next
  case (r_new_listener b w tr)
  then show ?case by (simp add: getNewListenerId_def)
next
  case (r_register b w tr c)
  then show ?case by (simp add: wf_reg_step)
qed

theorem C9_witness:
  "reachable (post (Any 0 5) (reg_step (Listen 1 0 (Some ex_relay)) EventBus_init), [''start''], []) \<and>
   wf_registry (m_listeners (post (Any 0 5) (reg_step (Listen 1 0 (Some ex_relay)) EventBus_init)))"
proof -
  have "reachable (post (Any 0 5) (reg_step (Listen 1 0 (Some ex_relay)) EventBus_init), [''start''], [])"
    by (intro r_post r_register r_init)
  with C9_registry_wellformed [OF this] show ?thesis by simp
qed

text \<open>
  C10: \<^verbatim>\<open>listen\<close> with an empty function stores the entry as the last call of the
  listener's group. \<^verbatim>\<open>execute\<close> of an entry whose function is empty returns without an
  error, whatever the event holds, and changes nothing; the loop over the calls of a
  group, and the dispatch over the groups of a key, behave as if the entry were not
  there: the callbacks before and after it run as they would without it.
\<close>

theorem C10_empty_callback_skipped:
  "(m_bus l = Some p \<longrightarrow>
      (\<exists>el \<in> set (groups (m_listeners (listen l eid None h p)) eid).
         listener_id el = m_listenerId l \<and> calls el \<noteq> [] \<and>
         last (calls el) = \<lparr>event_type = eid, cb = None\<rparr>)) \<and>
   execute \<lparr>event_type = t, cb = None\<rparr> e s = Inr s \<and>
   execute_calls (cs1 @ \<lparr>event_type = t, cb = None\<rparr> # cs2) e s = execute_calls (cs1 @ cs2) e s \<and>
   visit_listeners (els1 @ \<lparr>listener_id = n, calls = cs1 @ \<lparr>event_type = t, cb = None\<rparr> # cs2\<rparr> # els2) e s =
     visit_listeners (els1 @ \<lparr>listener_id = n, calls = cs1 @ cs2\<rparr> # els2) e s"
proof (intro conjI impI)
  assume "m_bus l = Some p"
  then show "\<exists>el \<in> set (groups (m_listeners (listen l eid None h p)) eid).
         listener_id el = m_listenerId l \<and> calls el \<noteq> [] \<and>
         last (calls el) = \<lparr>event_type = eid, cb = None\<rparr>"
    by (simp add: listen_def groups_addListener add_call_last)
next
  show "execute \<lparr>event_type = t, cb = None\<rparr> e s = Inr s"
    by (rule execute_empty)
  show "execute_calls (cs1 @ \<lparr>event_type = t, cb = None\<rparr> # cs2) e s = execute_calls (cs1 @ cs2) e s"
    by (rule execute_calls_skip)
  show "visit_listeners (els1 @ \<lparr>listener_id = n, calls = cs1 @ \<lparr>event_type = t, cb = None\<rparr> # cs2\<rparr> # els2) e s =
     visit_listeners (els1 @ \<lparr>listener_id = n, calls = cs1 @ cs2\<rparr> # els2) e s"
    by (simp add: visit_listeners_append execute_calls_skip split: sum.splits)
qed

theorem C10_witness:
  "m_bus \<lparr>m_listenerId = 1, m_bus = Some 0\<rparr> = Some 0 \<and>
   groups (m_listeners (listen \<lparr>m_listenerId = 1, m_bus = Some 0\<rparr> 0 None (\<lambda>p. EventBus_init) 0)) 0 =
     [\<lparr>listener_id = 1, calls = [\<lparr>event_type = 0, cb = None :: (int, string list) callback_t option\<rparr>]\<rparr>] \<and>
   groups (m_listeners ex_gap) 0 =
     [\<lparr>listener_id = 1, calls = [\<lparr>event_type = 0, cb = Some ex_relay\<rparr>,
        \<lparr>event_type = 0, cb = None\<rparr>, \<lparr>event_type = 0, cb = Some ex_sink\<rparr>]\<rparr>] \<and>
   immediate (Any 0 5) (ex_gap, [], []) =
     Inr (post (Any 1 5) ex_gap, [''relay'', ''sink''],
          [(\<lparr>event_type = 0, cb = Some ex_relay\<rparr>, Any 0 5),
           (\<lparr>event_type = 0, cb = Some ex_sink\<rparr>, Any 0 5)]) \<and>
   visit_listeners [\<lparr>listener_id = 1, calls = [\<lparr>event_type = 0, cb = Some ex_relay\<rparr>,
        \<lparr>event_type = 0, cb = None\<rparr>, \<lparr>event_type = 0, cb = Some ex_sink\<rparr>]\<rparr>] (Any 0 5) (ex_gap, [], []) =
   visit_listeners [\<lparr>listener_id = 1, calls = [\<lparr>event_type = 0, cb = Some ex_relay\<rparr>,
        \<lparr>event_type = 0, cb = Some ex_sink\<rparr>]\<rparr>] (Any 0 5) (ex_gap, [], [])"
proof -
  have 1: "m_bus \<lparr>m_listenerId = 1, m_bus = Some 0\<rparr> = Some 0" by simp
  have 2: "groups (m_listeners (listen \<lparr>m_listenerId = 1, m_bus = Some 0\<rparr> 0 None (\<lambda>p. EventBus_init) 0)) 0 =
     [\<lparr>listener_id = 1, calls = [\<lparr>event_type = 0, cb = None :: (int, string list) callback_t option\<rparr>]\<rparr>]"
    by (simp add: listen_def addListener_def add_call_def EventBus_init_def groups_def)
  have 3: "groups (m_listeners ex_gap) 0 =
     [\<lparr>listener_id = 1, calls = [\<lparr>event_type = 0, cb = Some ex_relay\<rparr>,
        \<lparr>event_type = 0, cb = None\<rparr>, \<lparr>event_type = 0, cb = Some ex_sink\<rparr>]\<rparr>]"
    by (simp add: ex_gap_groups groups_def)
  have 4: "immediate (Any 0 5) (ex_gap, [], []) =
     Inr (post (Any 1 5) ex_gap, [''relay'', ''sink''],
          [(\<lparr>event_type = 0, cb = Some ex_relay\<rparr>, Any 0 5),
           (\<lparr>event_type = 0, cb = Some ex_sink\<rparr>, Any 0 5)])"
    by (simp add: immediate_def immediate_id_def ex_gap_groups execute_def ex_relay_def ex_sink_def)
  from C10_empty_callback_skipped [of "\<lparr>m_listenerId = 1, m_bus = Some 0\<rparr>" 0 0 "\<lambda>p. EventBus_init"
      0 "Any 0 5" "(ex_gap, [], [])" "[\<lparr>event_type = 0, cb = Some ex_relay\<rparr>]"
      "[\<lparr>event_type = 0, cb = Some ex_sink\<rparr>]" "[]" 1 "[]",
      THEN conjunct2, THEN conjunct2, THEN conjunct2]
  have 5: "visit_listeners [\<lparr>listener_id = 1, calls = [\<lparr>event_type = 0, cb = Some ex_relay\<rparr>,
        \<lparr>event_type = 0, cb = None\<rparr>, \<lparr>event_type = 0, cb = Some ex_sink\<rparr>]\<rparr>] (Any 0 5) (ex_gap, [], []) =
   visit_listeners [\<lparr>listener_id = 1, calls = [\<lparr>event_type = 0, cb = Some ex_relay\<rparr>,
        \<lparr>event_type = 0, cb = Some ex_sink\<rparr>]\<rparr>] (Any 0 5) (ex_gap, [], [])"
    by (simp only: append_Nil append_Cons)
  show ?thesis by (intro conjI 1 2 3 4 5)
qed

end
